theory Spec2Isabelle
  imports Main "HOL-Library.Word" "HOL-Library.Code_Target_Nat"
begin

unbundle bit_operations_syntax

section \<open>Data model\<close>

text \<open>
  The module \<^verbatim>\<open>ok/client/utils/encryption.py\<close> works on two Python types:
  \<^verbatim>\<open>bytes\<close>, a sequence of 8-bit values, and \<^verbatim>\<open>str\<close>, a sequence of Unicode code
  points. A code point is a natural number; a Python \<^verbatim>\<open>str\<close> only ever holds code
  points below \<open>0x110000\<close>.
\<close>

type_synonym byte = "8 word"
type_synonym bytes = "byte list"
type_synonym str = "nat list"

text \<open>A \<^verbatim>\<open>str\<close> literal and a \<^verbatim>\<open>bytes\<close> literal of ASCII characters.\<close>

definition lit :: "string \<Rightarrow> str" where
  "lit s = map of_char s"

definition blit :: "string \<Rightarrow> bytes" where
  "blit s = map of_char s"

text \<open>
  Every exception the module or the library functions it calls can raise is a value.
  The two \<^verbatim>\<open>ValueError\<close>s of the module are told apart by their message, as are the
  two messages of \<^verbatim>\<open>binascii.Error\<close>; \<open>ValueError_InvalidKeySize\<close> is the one raised
  by the constructor of \<^verbatim>\<open>pyaes.AES\<close>.
\<close>

datatype error =
    ValueError_CannotPad nat int
  | ValueError_NoHeader
  | ValueError_InvalidKeySize
  | InvalidKeyException
  | BinasciiError_IncorrectPadding
  | BinasciiError_NonBase32Digit
  | UnicodeEncodeError
  | UnicodeDecodeError
  | OverflowError

section \<open>Library functions: slices and \<^verbatim>\<open>str\<close>/\<^verbatim>\<open>bytes\<close> methods\<close>

text \<open>\<^verbatim>\<open>xs.rstrip(c)\<close> for a one-element \<^verbatim>\<open>c\<close>: drop every trailing occurrence.\<close>

definition rstrip :: "'a \<Rightarrow> 'a list \<Rightarrow> 'a list" where
  "rstrip c xs = rev (dropWhile (\<lambda>x. x = c) (rev xs))"

text \<open>\<^verbatim>\<open>s.replace(a, b)\<close> for one-character \<^verbatim>\<open>a\<close> and \<^verbatim>\<open>b\<close>.\<close>

definition replace1 :: "nat \<Rightarrow> nat \<Rightarrow> str \<Rightarrow> str" where
  "replace1 a b s = map (\<lambda>c. if c = a then b else c) s"

text \<open>\<^verbatim>\<open>xs.startswith(p)\<close>.\<close>

definition startswith :: "'a list \<Rightarrow> 'a list \<Rightarrow> bool" where
  "startswith xs p = (take (length p) xs = p)"

text \<open>
  \<^verbatim>\<open>bs.decode('ascii')\<close> and \<^verbatim>\<open>s.encode('ascii')\<close>: both fail on a value above 127.
\<close>

definition decode_ascii :: "bytes \<Rightarrow> error + str" where
  "decode_ascii bs =
     (if list_all (\<lambda>b. unat b < 128) bs then Inr (map unat bs) else Inl UnicodeDecodeError)"

definition encode_ascii :: "str \<Rightarrow> error + bytes" where
  "encode_ascii s =
     (if list_all (\<lambda>c. c < 128) s then Inr (map of_nat s) else Inl UnicodeEncodeError)"

text \<open>
  \<^verbatim>\<open>s.lower()\<close>. The module calls it only on the result of \<^verbatim>\<open>decode('ascii')\<close>, where
  it changes the letters \<^verbatim>\<open>A\<close> to \<^verbatim>\<open>Z\<close> and nothing else; the model leaves a
  code point above 127 as it is.
\<close>

definition lower_cp :: "nat \<Rightarrow> nat" where
  "lower_cp c = (if 65 \<le> c \<and> c \<le> 90 then c + 32 else c)"

definition str_lower :: "str \<Rightarrow> str" where
  "str_lower s = map lower_cp s"

text \<open>
  \<^verbatim>\<open>s.upper()\<close>. On ASCII it changes the letters \<^verbatim>\<open>a\<close> to \<^verbatim>\<open>z\<close>. What it does to
  a code point above 127 is decided by the case-mapping table of the Unicode database
  (one code point may become several, and a few become ASCII letters); that table is the
  parameter \<open>uc\<close>.
\<close>

definition upper_cp :: "(nat \<Rightarrow> str) \<Rightarrow> nat \<Rightarrow> str" where
  "upper_cp uc c =
     (if c < 128 then [if 97 \<le> c \<and> c \<le> 122 then c - 32 else c] else uc c)"

definition str_upper :: "(nat \<Rightarrow> str) \<Rightarrow> str \<Rightarrow> str" where
  "str_upper uc s = concat (map (upper_cp uc) s)"

section \<open>Library functions: \<^verbatim>\<open>base64.b32encode\<close> and \<^verbatim>\<open>base64.b32decode\<close>\<close>

text \<open>
  The model follows CPython's \<^verbatim>\<open>Lib/base64.py\<close>. The encoder pads the input with
  zero bytes to a multiple of five, turns every five bytes into one 40-bit number and
  that number into eight characters (two at a time, through a table of the 1024 pairs),
  and overwrites the characters that stand for padding only with \<^verbatim>\<open>=\<close>.
\<close>

definition b32alphabet :: bytes where
  "b32alphabet = blit ''ABCDEFGHIJKLMNOPQRSTUVWXYZ234567''"

text \<open>\<^verbatim>\<open>int.from_bytes(bs)\<close>, big endian.\<close>

definition from_bytes :: "bytes \<Rightarrow> nat" where
  "from_bytes bs = foldl (\<lambda>acc b. acc * 256 + unat b) 0 bs"

text \<open>\<^verbatim>\<open>n.to_bytes(5)\<close>, big endian; it raises \<^verbatim>\<open>OverflowError\<close> from \<open>2 ^ 40\<close> on.\<close>

definition to_bytes5 :: "nat \<Rightarrow> error + bytes" where
  "to_bytes5 n =
     (if n < 2 ^ 40
      then Inr [of_nat (n div 2 ^ 32), of_nat (n div 2 ^ 24), of_nat (n div 2 ^ 16),
                of_nat (n div 2 ^ 8), of_nat n]
      else Inl OverflowError)"

text \<open>The slices \<^verbatim>\<open>s[i: i + n]\<close> for \<^verbatim>\<open>i in range(0, len(s), n)\<close>.\<close>

function chunks :: "nat \<Rightarrow> 'a list \<Rightarrow> 'a list list" where
  "chunks n xs = (if n = 0 \<or> xs = [] then [] else take n xs # chunks n (drop n xs))"
  by pat_completeness auto
termination
  by (relation "measure (\<lambda>(n, xs). length xs)") auto

declare chunks.simps [simp del]

text \<open>
  \<^verbatim>\<open>_b32tab2[i]\<close>: the pair table holds \<^verbatim>\<open>a + b for a in b32tab for b in b32tab\<close>,
  so entry \<open>i\<close> is the characters number \<open>i div 32\<close> and \<open>i mod 32\<close>.
\<close>

definition b32tab2 :: "nat \<Rightarrow> bytes" where
  "b32tab2 i = [b32alphabet ! (i div 32), b32alphabet ! (i mod 32)]"

definition encode_quantum :: "bytes \<Rightarrow> bytes" where
  "encode_quantum q =
     (let c = from_bytes q
      in b32tab2 (c div 2 ^ 30) @ b32tab2 ((c div 2 ^ 20) mod 1024) @
         b32tab2 ((c div 2 ^ 10) mod 1024) @ b32tab2 (c mod 1024))"

text \<open>\<^verbatim>\<open>encoded[-n:] = b'=' * n\<close>.\<close>

definition set_tail :: "nat \<Rightarrow> bytes \<Rightarrow> bytes" where
  "set_tail n encoded = take (length encoded - n) encoded @ replicate n (of_char CHR ''='')"

definition b32encode :: "bytes \<Rightarrow> bytes" where
  "b32encode s =
     (let leftover = length s mod 5;
          s' = (if leftover \<noteq> 0 then s @ replicate (5 - leftover) 0 else s);
          encoded = concat (map encode_quantum (chunks 5 s'))
      in if leftover = 1 then set_tail 6 encoded
         else if leftover = 2 then set_tail 4 encoded
         else if leftover = 3 then set_tail 3 encoded
         else if leftover = 4 then set_tail 1 encoded
         else encoded)"

text \<open>
  The decoder. \<^verbatim>\<open>b32rev\<close> is the reverse table of the alphabet; a character outside
  it is a \<^verbatim>\<open>KeyError\<close>, turned into \<^verbatim>\<open>binascii.Error\<close>.
\<close>

definition b32rev :: "byte \<Rightarrow> nat option" where
  "b32rev = map_of (zip b32alphabet [0 ..< 32])"

text \<open>The inner loop: \<^verbatim>\<open>acc = (acc << 5) + b32rev[c]\<close> for the characters of a quantum.\<close>

fun quantum_acc :: "bytes \<Rightarrow> nat \<Rightarrow> error + nat" where
  "quantum_acc [] acc = Inr acc"
| "quantum_acc (c # cs) acc =
     (case b32rev c of
        None \<Rightarrow> Inl BinasciiError_NonBase32Digit
      | Some v \<Rightarrow> quantum_acc cs (acc * 32 + v))"

text \<open>
  The outer loop, with its two variables: the bytes decoded so far and the number of
  the last quantum, which the code after the loop uses again.
\<close>

fun decode_quanta :: "bytes list \<Rightarrow> bytes \<times> nat \<Rightarrow> error + bytes \<times> nat" where
  "decode_quanta [] st = Inr st"
| "decode_quanta (q # qs) (decoded, acc0) =
     (case quantum_acc q 0 of
        Inl e \<Rightarrow> Inl e
      | Inr acc \<Rightarrow>
          (case to_bytes5 acc of
             Inl e \<Rightarrow> Inl e
           | Inr bs \<Rightarrow> decode_quanta qs (decoded @ bs, acc)))"

definition b32decode :: "bytes \<Rightarrow> error + bytes" where
  "b32decode s0 =
     (if length s0 mod 8 \<noteq> 0 then Inl BinasciiError_IncorrectPadding
      else
        let l = length s0;
            s = rstrip (of_char CHR ''='') s0;
            padchars = l - length s
        in case decode_quanta (chunks 8 s) ([], 0) of
             Inl e \<Rightarrow> Inl e
           | Inr (decoded, acc) \<Rightarrow>
               if l mod 8 \<noteq> 0 \<or> padchars \<notin> {0, 1, 3, 4, 6}
               then Inl BinasciiError_IncorrectPadding
               else if padchars \<noteq> 0 \<and> decoded \<noteq> [] then
                 (case to_bytes5 (acc * 2 ^ (5 * padchars)) of
                    Inl e \<Rightarrow> Inl e
                  | Inr last5 \<Rightarrow>
                      let leftover = (43 - 5 * padchars) div 8
                      in Inr (take (length decoded - 5) decoded @ take leftover last5))
               else Inr decoded)"

section \<open>The text-safety codec\<close>

text \<open>
  \<^verbatim>\<open>
  def to_safe_string(unsafe_bytes: bytes) -> str:
      return base64.b32encode(unsafe_bytes).decode('ascii').replace("=", "9").lower()

  def from_safe_string(safe_string: str) -> bytes:
      return base64.b32decode(safe_string.upper().replace("9", "=").encode('ascii'))
  \<close>
\<close>

definition to_safe_string :: "bytes \<Rightarrow> error + str" where
  "to_safe_string unsafe_bytes =
     (case decode_ascii (b32encode unsafe_bytes) of
        Inl e \<Rightarrow> Inl e
      | Inr s \<Rightarrow> Inr (str_lower (replace1 (of_char CHR ''='') (of_char CHR ''9'') s)))"

definition from_safe_string :: "(nat \<Rightarrow> str) \<Rightarrow> str \<Rightarrow> error + bytes" where
  "from_safe_string uc safe_string =
     (case encode_ascii (replace1 (of_char CHR ''9'') (of_char CHR ''='') (str_upper uc safe_string)) of
        Inl e \<Rightarrow> Inl e
      | Inr bs \<Rightarrow> b32decode bs)"

section \<open>Library functions: UTF-8\<close>

text \<open>
  \<^verbatim>\<open>s.encode('utf-8')\<close>, one code point at a time. A surrogate (\<open>0xD800\<close> to \<open>0xDFFF\<close>),
  which a Python \<^verbatim>\<open>str\<close> may hold, raises \<^verbatim>\<open>UnicodeEncodeError\<close>.
\<close>

definition utf8_encode_cp :: "nat \<Rightarrow> error + bytes" where
  "utf8_encode_cp c =
     (if c < 0x80 then Inr [of_nat c]
      else if c < 0x800 then Inr [of_nat (0xC0 + c div 64), of_nat (0x80 + c mod 64)]
      else if 0xD800 \<le> c \<and> c < 0xE000 then Inl UnicodeEncodeError
      else if c < 0x10000 then
        Inr [of_nat (0xE0 + c div 4096), of_nat (0x80 + c div 64 mod 64),
             of_nat (0x80 + c mod 64)]
      else if c < 0x110000 then
        Inr [of_nat (0xF0 + c div 262144), of_nat (0x80 + c div 4096 mod 64),
             of_nat (0x80 + c div 64 mod 64), of_nat (0x80 + c mod 64)]
      else Inl UnicodeEncodeError)"

fun utf8_encode :: "str \<Rightarrow> error + bytes" where
  "utf8_encode [] = Inr []"
| "utf8_encode (c # cs) =
     (case utf8_encode_cp c of
        Inl e \<Rightarrow> Inl e
      | Inr bs \<Rightarrow> (case utf8_encode cs of Inl e \<Rightarrow> Inl e | Inr rest \<Rightarrow> Inr (bs @ rest)))"

text \<open>
  \<^verbatim>\<open>bs.decode('utf-8')\<close>, strict: the well-formed byte sequences of the Unicode standard
  (no overlong form, no surrogate, nothing above \<open>0x10FFFF\<close>). \<open>utf8_decode_one\<close> reads
  the sequence at the head and returns its code point and the bytes after it.
\<close>

definition is_cont :: "byte \<Rightarrow> bool" where
  "is_cont b = (0x80 \<le> unat b \<and> unat b < 0xC0)"

text \<open>The two-, three- and four-byte forms, given the value of the lead byte.\<close>

definition utf8_decode2 :: "nat \<Rightarrow> bytes \<Rightarrow> (nat \<times> bytes) option" where
  "utf8_decode2 n0 r0 =
     (case r0 of
        b1 # r1 \<Rightarrow>
          if is_cont b1 then Some ((n0 - 0xC0) * 64 + (unat b1 - 0x80), r1) else None
      | _ \<Rightarrow> None)"

definition utf8_decode3 :: "nat \<Rightarrow> bytes \<Rightarrow> (nat \<times> bytes) option" where
  "utf8_decode3 n0 r0 =
     (case r0 of
        b1 # b2 # r2 \<Rightarrow>
          if is_cont b1 \<and> is_cont b2
             \<and> (if n0 = 0xE0 then 0xA0 \<le> unat b1 else True)
             \<and> (if n0 = 0xED then unat b1 < 0xA0 else True)
          then Some ((n0 - 0xE0) * 4096 + (unat b1 - 0x80) * 64 + (unat b2 - 0x80), r2)
          else None
      | _ \<Rightarrow> None)"

definition utf8_decode4 :: "nat \<Rightarrow> bytes \<Rightarrow> (nat \<times> bytes) option" where
  "utf8_decode4 n0 r0 =
     (case r0 of
        b1 # b2 # b3 # r3 \<Rightarrow>
          if is_cont b1 \<and> is_cont b2 \<and> is_cont b3
             \<and> (if n0 = 0xF0 then 0x90 \<le> unat b1 else True)
             \<and> (if n0 = 0xF4 then unat b1 < 0x90 else True)
          then Some ((n0 - 0xF0) * 262144 + (unat b1 - 0x80) * 4096
                     + (unat b2 - 0x80) * 64 + (unat b3 - 0x80), r3)
          else None
      | _ \<Rightarrow> None)"

definition utf8_decode_one :: "bytes \<Rightarrow> (nat \<times> bytes) option" where
  "utf8_decode_one bs =
     (case bs of
        [] \<Rightarrow> None
      | b0 # r0 \<Rightarrow>
          let n0 = unat b0 in
          if n0 < 0x80 then Some (n0, r0)
          else if n0 < 0xC2 then None
          else if n0 < 0xE0 then utf8_decode2 n0 r0
          else if n0 < 0xF0 then utf8_decode3 n0 r0
          else if n0 < 0xF5 then utf8_decode4 n0 r0
          else None)"

lemma utf8_decode2_shorter: "utf8_decode2 n r0 = Some (c, rest) \<Longrightarrow> length rest < length r0"
  unfolding utf8_decode2_def by (cases r0) (simp_all split: if_splits)

lemma utf8_decode3_shorter: "utf8_decode3 n r0 = Some (c, rest) \<Longrightarrow> length rest < length r0"
  unfolding utf8_decode3_def
  by (cases r0; cases "tl r0") (auto split: if_split_asm)

lemma utf8_decode4_shorter: "utf8_decode4 n r0 = Some (c, rest) \<Longrightarrow> length rest < length r0"
  unfolding utf8_decode4_def
  by (cases r0; cases "tl r0"; cases "tl (tl r0)") (auto split: if_split_asm)

lemma utf8_decode_one_shorter:
  assumes "utf8_decode_one bs = Some (c, rest)"
  shows "length rest < length bs"
proof (cases bs)
  case Nil
  with assms show ?thesis by (simp add: utf8_decode_one_def)
next
  case (Cons b0 r0)
  have "length rest \<le> length r0"
    using assms Cons utf8_decode2_shorter [of "unat b0" r0 c rest]
      utf8_decode3_shorter [of "unat b0" r0 c rest] utf8_decode4_shorter [of "unat b0" r0 c rest]
    by (simp add: utf8_decode_one_def Let_def split: if_split_asm)
  with Cons show ?thesis by simp
qed

function utf8_decode :: "bytes \<Rightarrow> error + str" where
  "utf8_decode bs =
     (if bs = [] then Inr []
      else case utf8_decode_one bs of
             None \<Rightarrow> Inl UnicodeDecodeError
           | Some (c, rest) \<Rightarrow>
               (case utf8_decode rest of Inl e \<Rightarrow> Inl e | Inr cs \<Rightarrow> Inr (c # cs)))"
  by pat_completeness auto
termination
  by (relation "measure length") (auto dest: utf8_decode_one_shorter)

declare utf8_decode.simps [simp del]

section \<open>Library functions: \<^verbatim>\<open>pyaes.AESModeOfOperationCTR\<close>\<close>

text \<open>
  The constructor checks the key size (16, 24 or 32 bytes) and starts the counter at
  its default, 1. \<^verbatim>\<open>encrypt\<close> XORs the data with the key stream, the AES encryptions
  of the successive counter values, and \<^verbatim>\<open>decrypt\<close> is \<^verbatim>\<open>encrypt\<close>. The module builds
  a new object for every call, so every call reads the key stream from its start.
  The block cipher itself is the parameter \<open>ks\<close>: \<open>ks key i\<close> is byte \<open>i\<close> of the key
  stream under \<open>key\<close>.
\<close>

type_synonym keystream = "bytes \<Rightarrow> nat \<Rightarrow> byte"

definition AESModeOfOperationCTR :: "keystream \<Rightarrow> bytes \<Rightarrow> error + (nat \<Rightarrow> byte)" where
  "AESModeOfOperationCTR ks key =
     (if length key \<in> {16, 24, 32} then Inr (ks key) else Inl ValueError_InvalidKeySize)"

definition ctr_encrypt :: "(nat \<Rightarrow> byte) \<Rightarrow> bytes \<Rightarrow> bytes" where
  "ctr_encrypt stream plaintext =
     map (\<lambda>(p, i). p XOR stream i) (zip plaintext [0 ..< length plaintext])"

definition ctr_decrypt :: "(nat \<Rightarrow> byte) \<Rightarrow> bytes \<Rightarrow> bytes" where
  "ctr_decrypt stream crypttext = ctr_encrypt stream crypttext"

section \<open>Library functions: \<^verbatim>\<open>re.match\<close> and \<^verbatim>\<open>re.findall\<close>\<close>

text \<open>
  The patterns of the module are sequences of items that each match one character
  (a literal or a character set) or no character (\<^verbatim>\<open>^\<close>, and \<^verbatim>\<open>$\<close>, which matches at
  the end of the string and also just before a newline that ends the string). On such a
  pattern the matcher never backtracks. \<open>re_match_at p s i\<close> is the end of the match of
  \<open>p\<close> in \<open>s\<close> that starts at \<open>i\<close>.
\<close>

datatype re_item = Bol | Eol | Lit nat | InSet "(nat \<times> nat) list"

definition in_ranges :: "(nat \<times> nat) list \<Rightarrow> nat \<Rightarrow> bool" where
  "in_ranges rs c = list_ex (\<lambda>(lo, hi). lo \<le> c \<and> c \<le> hi) rs"

fun re_match_at :: "re_item list \<Rightarrow> str \<Rightarrow> nat \<Rightarrow> nat option" where
  "re_match_at [] s i = Some i"
| "re_match_at (Bol # p) s i = (if i = 0 then re_match_at p s i else None)"
| "re_match_at (Eol # p) s i =
     (if i = length s \<or> (i + 1 = length s \<and> s ! i = 10) then re_match_at p s i else None)"
| "re_match_at (Lit c # p) s i =
     (if i < length s \<and> s ! i = c then re_match_at p s (i + 1) else None)"
| "re_match_at (InSet rs # p) s i =
     (if i < length s \<and> in_ranges rs (s ! i) then re_match_at p s (i + 1) else None)"

text \<open>\<^verbatim>\<open>re.match(p, s) is not None\<close>: a match at the start of the string.\<close>

definition re_match :: "re_item list \<Rightarrow> str \<Rightarrow> bool" where
  "re_match p s = (re_match_at p s 0 \<noteq> None)"

text \<open>
  \<^verbatim>\<open>re.findall(p, s)\<close> for a pattern without groups: the scan tries every position from
  the left; after a match it goes on at the end of the match (one further after an empty
  match).
\<close>

function re_findall_from :: "re_item list \<Rightarrow> str \<Rightarrow> nat \<Rightarrow> str list" where
  "re_findall_from p s i =
     (if length s < i then []
      else case re_match_at p s i of
             None \<Rightarrow> re_findall_from p s (i + 1)
           | Some j \<Rightarrow> take (j - i) (drop i s) # re_findall_from p s (max j (i + 1)))"
  by pat_completeness auto
termination
  by (relation "measure (\<lambda>(p, s, i). length s + 1 - i)") auto

declare re_findall_from.simps [simp del]

definition re_findall :: "re_item list \<Rightarrow> str \<Rightarrow> str list" where
  "re_findall p s = re_findall_from p s 0"

section \<open>The module\<close>

text \<open>
  \<^verbatim>\<open>
  HEADER_TEXT = "OKPY ENCRYPTED FILE FOLLOWS\n" + "-" * 100 + "\n"
  PLAINTEXT_PADDING = b"0" * 16
  KEY_PATTERN = r"[a-z2-7]{52}9999"
  \<close>
\<close>

definition HEADER_TEXT :: str where
  "HEADER_TEXT =
     (lit ''OKPY ENCRYPTED FILE FOLLOWS'' @ [10]) @ replicate 100 (of_char CHR ''-'') @ [10]"

definition PLAINTEXT_PADDING :: bytes where
  "PLAINTEXT_PADDING = replicate 16 (of_char CHR ''0'')"

definition KEY_PATTERN :: "re_item list" where
  "KEY_PATTERN =
     replicate 52 (InSet [(of_char CHR ''a'', of_char CHR ''z''),
                          (of_char CHR ''2'', of_char CHR ''7'')])
     @ map Lit (lit ''9999'')"

text \<open>
  \<^verbatim>\<open>generate_key\<close> returns \<^verbatim>\<open>to_safe_string(os.urandom(32))\<close>; the random source is the
  parameter \<open>urandom\<close>, which returns as many bytes as it is asked for.
\<close>

definition generate_key :: "(nat \<Rightarrow> bytes) \<Rightarrow> error + str" where
  "generate_key urandom = to_safe_string (urandom 32)"

text \<open>\<^verbatim>\<open>return re.match("^" + KEY_PATTERN + "$", key) is not None\<close>\<close>

definition is_valid_key :: "str \<Rightarrow> bool" where
  "is_valid_key key = re_match ([Bol] @ KEY_PATTERN @ [Eol]) key"

text \<open>\<^verbatim>\<open>return re.findall(KEY_PATTERN, document)\<close>\<close>

definition get_keys :: "str \<Rightarrow> str list" where
  "get_keys document = re_findall KEY_PATTERN document"

text \<open>
  \<^verbatim>\<open>
  def encode_and_pad(data: str, to_length: int) -> bytes:
      encoded = data.encode('utf-8')
      if to_length is None:
          return encoded
      if len(encoded) > to_length:
          raise ValueError("Cannot pad data of length {} to size {}".format(...))
      return encoded + b"\0" * (to_length - len(encoded))
  \<close>
\<close>

definition encode_and_pad :: "str \<Rightarrow> int option \<Rightarrow> error + bytes" where
  "encode_and_pad data to_length =
     (case utf8_encode data of
        Inl e \<Rightarrow> Inl e
      | Inr encoded \<Rightarrow>
          (case to_length of
             None \<Rightarrow> Inr encoded
           | Some n \<Rightarrow>
               if int (length encoded) > n then Inl (ValueError_CannotPad (length encoded) n)
               else Inr (encoded @ replicate (nat (n - int (length encoded))) 0)))"

text \<open>\<^verbatim>\<open>return padded.rstrip(b"\0").decode('utf-8')\<close>\<close>

definition un_pad_and_decode :: "bytes \<Rightarrow> error + str" where
  "un_pad_and_decode padded = utf8_decode (rstrip 0 padded)"

text \<open>\<^verbatim>\<open>return pyaes.AESModeOfOperationCTR(from_safe_string(key))\<close>\<close>

definition aes_mode_of_operation ::
  "(nat \<Rightarrow> str) \<Rightarrow> keystream \<Rightarrow> str \<Rightarrow> error + (nat \<Rightarrow> byte)" where
  "aes_mode_of_operation uc ks key =
     (case from_safe_string uc key of
        Inl e \<Rightarrow> Inl e
      | Inr key_bytes \<Rightarrow> AESModeOfOperationCTR ks key_bytes)"

text \<open>
  \<^verbatim>\<open>
  def encrypt(data: str, key: str, pad_length: int = None) -> str:
      data_as_bytes = PLAINTEXT_PADDING + encode_and_pad(data, pad_length)
      ciphertext = aes_mode_of_operation(key).encrypt(data_as_bytes)
      encoded_ciphertext = HEADER_TEXT + to_safe_string(ciphertext)
      return encoded_ciphertext
  \<close>
\<close>

definition encrypt :: "(nat \<Rightarrow> str) \<Rightarrow> keystream \<Rightarrow> str \<Rightarrow> str \<Rightarrow> int option \<Rightarrow> error + str" where
  "encrypt uc ks data key pad_length =
     (case encode_and_pad data pad_length of
        Inl e \<Rightarrow> Inl e
      | Inr padded \<Rightarrow>
          let data_as_bytes = PLAINTEXT_PADDING @ padded
          in case aes_mode_of_operation uc ks key of
               Inl e \<Rightarrow> Inl e
             | Inr stream \<Rightarrow>
                 let ciphertext = ctr_encrypt stream data_as_bytes
                 in case to_safe_string ciphertext of
                      Inl e \<Rightarrow> Inl e
                    | Inr safe \<Rightarrow> Inr (HEADER_TEXT @ safe))"

text \<open>\<^verbatim>\<open>return encoded_ciphertext.startswith(HEADER_TEXT)\<close>\<close>

definition is_encrypted :: "str \<Rightarrow> bool" where
  "is_encrypted encoded_ciphertext = startswith encoded_ciphertext HEADER_TEXT"

text \<open>
  \<^verbatim>\<open>
  def decrypt(encoded_ciphertext: str, key: str) -> str:
      if not encoded_ciphertext.startswith(HEADER_TEXT):
          raise ValueError("Invalid ciphertext: does not start with the header")
      ciphertext_no_header = encoded_ciphertext[len(HEADER_TEXT):]
      ciphertext_no_header_bytes = from_safe_string(ciphertext_no_header)
      padded_plaintext = aes_mode_of_operation(key).decrypt(ciphertext_no_header_bytes)
      if not padded_plaintext.startswith(PLAINTEXT_PADDING):
          raise InvalidKeyException
      plaintext = padded_plaintext[len(PLAINTEXT_PADDING):]
      plaintext = un_pad_and_decode(plaintext)
      return plaintext
  \<close>
\<close>

definition decrypt :: "(nat \<Rightarrow> str) \<Rightarrow> keystream \<Rightarrow> str \<Rightarrow> str \<Rightarrow> error + str" where
  "decrypt uc ks encoded_ciphertext key =
     (if \<not> startswith encoded_ciphertext HEADER_TEXT then Inl ValueError_NoHeader
      else
        let ciphertext_no_header = drop (length HEADER_TEXT) encoded_ciphertext
        in case from_safe_string uc ciphertext_no_header of
             Inl e \<Rightarrow> Inl e
           | Inr ciphertext_no_header_bytes \<Rightarrow>
               (case aes_mode_of_operation uc ks key of
                  Inl e \<Rightarrow> Inl e
                | Inr stream \<Rightarrow>
                    let padded_plaintext = ctr_decrypt stream ciphertext_no_header_bytes
                    in if \<not> startswith padded_plaintext PLAINTEXT_PADDING
                       then Inl InvalidKeyException
                       else un_pad_and_decode (drop (length PLAINTEXT_PADDING) padded_plaintext)))"

section \<open>The specification's vocabulary\<close>

text \<open>
  A key of valid form, in the words of the specification: a 56-character string, 52
  characters from \<^verbatim>\<open>[a-z2-7]\<close> followed by the literal suffix \<^verbatim>\<open>9999\<close>.
\<close>

definition key_char :: "nat \<Rightarrow> bool" where
  "key_char c = ((of_char CHR ''a'' \<le> c \<and> c \<le> of_char CHR ''z'') \<or> (of_char CHR ''2'' \<le> c \<and> c \<le> of_char CHR ''7''))"

definition key_form :: "str \<Rightarrow> bool" where
  "key_form k = (length k = 56 \<and> list_all key_char (take 52 k) \<and> drop 52 k = lit ''9999'')"

text \<open>What one item of a pattern accepts, for the items that consume a character.\<close>

fun item_ok :: "re_item \<Rightarrow> nat \<Rightarrow> bool" where
  "item_ok (Lit c) x = (x = c)"
| "item_ok (InSet rs) x = in_ranges rs x"
| "item_ok _ x = False"

text \<open>The substring of 56 characters that starts at position \<open>i\<close> has the form of a key.\<close>

definition key_at :: "str \<Rightarrow> nat \<Rightarrow> bool" where
  "key_at s i = (i + 56 \<le> length s \<and> key_form (take 56 (drop i s)))"

text \<open>Sample inputs, for evaluating the model.\<close>

definition sample_key :: str where
  "sample_key = lit ''aaaaaaaaaaaaaaaaaaaaaaaaaaaaaaaaaaaaaaaaaaaaaaaaaaaa9999''"

definition sample_key2 :: str where
  "sample_key2 = lit ''aaaaaaaaaaaaaaaaaaaaaaaaaaaaaaaaaaaaaaaaaaaaaaaaaaab9999''"

text \<open>
  A case table that leaves the code points above 127 alone, and a key stream that
  depends on the key and on the position.
\<close>

definition sample_upper :: "nat \<Rightarrow> str" where
  "sample_upper c = [c]"

definition sample_keystream :: keystream where
  "sample_keystream key i = of_nat (7 * i + 3) + of_nat (length key) * foldr (+) key 1"

section \<open>Auxiliary definitions\<close>

text \<open>
  The big-endian digits of a number in base \<open>b\<close>: the eight characters of a quantum
  are the base-32 digits of its 40-bit number, and its five bytes the base-256 digits.
\<close>

fun be_digits :: "nat \<Rightarrow> nat \<Rightarrow> nat \<Rightarrow> nat list" where
  "be_digits b 0 c = []"
| "be_digits b (Suc k) c = be_digits b k (c div b) @ [c mod b]"

text \<open>
  The characters of the base-32 alphabet by their codes (the capital letters and the
  digits 2 to 7), the same with the padding character, and the number of padding
  characters that stand for a last group of \<open>r\<close> bytes.
\<close>

definition b32_upper_char :: "byte \<Rightarrow> bool" where
  "b32_upper_char x = (65 \<le> unat x \<and> unat x \<le> 90 \<or> 50 \<le> unat x \<and> unat x \<le> 55)"

definition b32_char :: "byte \<Rightarrow> bool" where
  "b32_char x = (b32_upper_char x \<or> x = of_char CHR ''='')"

definition pad_chars :: "nat \<Rightarrow> nat" where
  "pad_chars r = (if r = 1 then 6 else if r = 2 then 4 else if r = 3 then 3 else 1)"

text \<open>\<^verbatim>\<open>upper()\<close> on one ASCII character.\<close>

definition ascii_upper :: "nat \<Rightarrow> nat" where
  "ascii_upper c = (if 97 \<le> c \<and> c \<le> 122 then c - 32 else c)"

text \<open>
  The positions at which the scan of \<^verbatim>\<open>re.findall\<close> finds a key, starting at \<open>i\<close>: the
  same walk as \<open>re_findall_from\<close>, recording where instead of what.
\<close>

function key_positions_from :: "str \<Rightarrow> nat \<Rightarrow> nat list" where
  "key_positions_from s i =
     (if length s < i then []
      else if key_at s i then i # key_positions_from s (i + 56)
      else key_positions_from s (i + 1))"
  by pat_completeness auto
termination
  by (relation "measure (\<lambda>(s, i). length s + 1 - i)") auto

declare key_positions_from.simps [simp del]

section \<open>The key pattern\<close>

lemma re_match_at_chars:
  "list_all (\<lambda>it. it \<noteq> Bol \<and> it \<noteq> Eol) p \<Longrightarrow> i \<le> length s \<Longrightarrow>
   re_match_at (p @ q) s i =
     (if i + length p \<le> length s \<and> list_all2 item_ok p (take (length p) (drop i s))
      then re_match_at q s (i + length p) else None)"
proof (induction p arbitrary: i)
  case Nil
  then show ?case by simp
next
  case (Cons it p)
  have ih: "re_match_at (p @ q) s (Suc i) =
     (if Suc (i + length p) \<le> length s \<and> list_all2 item_ok p (take (length p) (drop (Suc i) s))
      then re_match_at q s (Suc (i + length p)) else None)"
    if "i < length s" using Cons that by simp
  show ?case
  proof (cases "i < length s")
    case False
    then show ?thesis by (cases it) (use Cons.prems in auto)
  next
    case True
    then have d: "drop i s = s ! i # drop (Suc i) s"
      by (simp add: Cons_nth_drop_Suc)
    show ?thesis
      using Cons.prems True by (cases it) (auto simp: ih [OF True] d)
  qed
qed

lemma list_all2_replicate_left:
  "list_all2 P (replicate n a) xs = (length xs = n \<and> list_all (P a) xs)"
  by (auto simp: list_all2_conv_all_nth list_all_length)

lemma list_all2_Lit: "list_all2 item_ok (map Lit l) xs = (xs = l)"
  by (auto simp: list_all2_conv_all_nth list_eq_iff_nth_eq)

lemma key_char_ranges:
  "item_ok (InSet [(of_char CHR ''a'', of_char CHR ''z''), (of_char CHR ''2'', of_char CHR ''7'')]) = key_char"
  by (rule ext) (simp add: in_ranges_def key_char_def)

lemma length_KEY_PATTERN: "length KEY_PATTERN = 56"
  by (simp add: KEY_PATTERN_def lit_def)

lemma KEY_PATTERN_chars: "list_all (\<lambda>it. it \<noteq> Bol \<and> it \<noteq> Eol) KEY_PATTERN"
  by (simp add: KEY_PATTERN_def list_all_iff)

lemma KEY_PATTERN_matches: "list_all2 item_ok KEY_PATTERN xs = key_form xs"
proof -
  have "list_all2 item_ok KEY_PATTERN xs =
        (\<exists>us vs. xs = us @ vs \<and> length us = 52 \<and> list_all key_char us \<and> vs = lit ''9999'')"
    unfolding KEY_PATTERN_def list_all2_append1 list_all2_replicate_left list_all2_Lit key_char_ranges
    by (auto simp: lit_def)
  also have "\<dots> = key_form xs"
  proof
    assume "\<exists>us vs. xs = us @ vs \<and> length us = 52 \<and> list_all key_char us \<and> vs = lit ''9999''"
    then show "key_form xs" by (auto simp: key_form_def lit_def)
  next
    assume k: "key_form xs"
    have "xs = take 52 xs @ drop 52 xs" by simp
    moreover have "length (take 52 xs) = 52" using k by (simp add: key_form_def)
    ultimately show "\<exists>us vs. xs = us @ vs \<and> length us = 52 \<and> list_all key_char us \<and> vs = lit ''9999''"
      using k unfolding key_form_def by blast
  qed
  finally show ?thesis .
qed

lemma re_match_at_KEY_PATTERN:
  "i \<le> length s \<Longrightarrow>
   re_match_at (KEY_PATTERN @ q) s i = (if key_at s i then re_match_at q s (i + 56) else None)"
  by (simp add: re_match_at_chars [OF KEY_PATTERN_chars] length_KEY_PATTERN KEY_PATTERN_matches key_at_def)

lemma is_valid_key_iff:
  "is_valid_key key = (key_form key \<or> (\<exists>k. key = k @ [10] \<and> key_form k))"
proof -
  have a: "is_valid_key key = (key_at key 0 \<and> (length key = 56 \<or> (length key = 57 \<and> key ! 56 = 10)))"
    by (auto simp: is_valid_key_def re_match_def re_match_at_KEY_PATTERN)
  show ?thesis
  proof
    assume "is_valid_key key"
    then have k: "key_form (take 56 key)" and l: "length key = 56 \<or> (length key = 57 \<and> key ! 56 = 10)"
      by (auto simp: a key_at_def)
    from l show "key_form key \<or> (\<exists>k. key = k @ [10] \<and> key_form k)"
    proof
      assume "length key = 56" with k show ?thesis by simp
    next
      assume h: "length key = 57 \<and> key ! 56 = 10"
      then have "key = take 56 key @ [key ! 56]"
        by (metis One_nat_def Suc_eq_plus1 add_Suc_right lessI numeral_plus_one semiring_norm(5) semiring_norm(8) take_Suc_conv_app_nth take_all order_refl numeral_eq_Suc)
      with h k show ?thesis by metis
    qed
  next
    assume "key_form key \<or> (\<exists>k. key = k @ [10] \<and> key_form k)"
    then show "is_valid_key key"
      by (auto simp: a key_at_def key_form_def nth_append)
  qed
qed


text \<open>
  C10: for every 56-character string \<open>k\<close> of 52 characters from \<^verbatim>\<open>[a-z2-7]\<close> followed by
  \<^verbatim>\<open>9999\<close>, \<^verbatim>\<open>is_valid_key(k + "\n")\<close> is true as well: the end anchor of the pattern
  also matches just before a final newline.
\<close>

theorem is_valid_key_accepts_final_newline:
  "key_form k \<Longrightarrow> is_valid_key (k @ [10])"
  by (simp add: is_valid_key_iff)

theorem is_valid_key_accepts_final_newline_witness:
  "key_form sample_key \<and> is_valid_key (sample_key @ [10])"
proof -
  have h: "key_form sample_key" by code_simp
  show ?thesis using h is_valid_key_accepts_final_newline [OF h] by simp
qed

text \<open>
  C5: \<^verbatim>\<open>is_valid_key(key)\<close> is true if and only if \<open>key\<close> is a 56-character string of 52
  characters from \<^verbatim>\<open>[a-z2-7]\<close> followed by \<^verbatim>\<open>9999\<close>. The function accepts the 57-character
  string below, a key followed by a newline, which does not have that form and which
  \<^verbatim>\<open>from_safe_string\<close>, and so \<^verbatim>\<open>encrypt\<close> and \<^verbatim>\<open>decrypt\<close>, reject as a key.
\<close>

theorem is_valid_key_sample_with_newline:
  "is_valid_key (sample_key @ [10]) \<and> \<not> key_form (sample_key @ [10])
   \<and> length (sample_key @ [10]) = 57
   \<and> from_safe_string sample_upper (sample_key @ [10]) = Inl BinasciiError_IncorrectPadding"
  by code_simp

section \<open>UTF-8: decoding an encoding, and trailing NULs\<close>

lemma unat_byte_of_nat: "n < 256 \<Longrightarrow> unat (of_nat n :: byte) = n"
  by (simp add: unat_of_nat)

lemma utf8_decode_one_1:
  "unat b0 < 0x80 \<Longrightarrow> utf8_decode_one (b0 # rest) = Some (unat b0, rest)"
  by (simp add: utf8_decode_one_def)

lemma utf8_decode_one_2:
  assumes "unat b0 = 0xC0 + h" "2 \<le> h" "h < 32" "unat b1 = 0x80 + l" "l < 64"
  shows "utf8_decode_one (b0 # b1 # rest) = Some (h * 64 + l, rest)"
  using assms by (simp add: utf8_decode_one_def utf8_decode2_def is_cont_def)

lemma utf8_decode_one_3:
  assumes "unat b0 = 0xE0 + h" "h < 16" "unat b1 = 0x80 + m" "m < 64"
    "unat b2 = 0x80 + l" "l < 64" "h = 0 \<Longrightarrow> 32 \<le> m" "h = 13 \<Longrightarrow> m < 32"
  shows "utf8_decode_one (b0 # b1 # b2 # rest) = Some (h * 4096 + m * 64 + l, rest)"
  using assms by (simp add: utf8_decode_one_def utf8_decode3_def is_cont_def)

lemma utf8_decode_one_4:
  assumes "unat b0 = 0xF0 + g" "g < 5" "unat b1 = 0x80 + h" "h < 64"
    "unat b2 = 0x80 + m" "m < 64" "unat b3 = 0x80 + l" "l < 64"
    "g = 0 \<Longrightarrow> 16 \<le> h" "g = 4 \<Longrightarrow> h < 16"
  shows "utf8_decode_one (b0 # b1 # b2 # b3 # rest)
         = Some (g * 262144 + h * 4096 + m * 64 + l, rest)"
  using assms by (simp add: utf8_decode_one_def utf8_decode4_def is_cont_def)


lemma split64: "(c::nat) = c div 64 * 64 + c mod 64"
  by simp

lemma split4096: "(c::nat) = c div 4096 * 4096 + c div 64 mod 64 * 64 + c mod 64"
proof -
  have "c div 4096 = c div 64 div 64" by (simp add: div_mult2_eq [symmetric])
  then have "c div 64 = c div 4096 * 64 + c div 64 mod 64" by simp
  then show ?thesis using split64 [of c] by linarith
qed

lemma split262144:
  "(c::nat) = c div 262144 * 262144 + c div 4096 mod 64 * 4096 + c div 64 mod 64 * 64 + c mod 64"
proof -
  have "c div 262144 = c div 4096 div 64" by (simp add: div_mult2_eq [symmetric])
  then have "c div 4096 = c div 262144 * 64 + c div 4096 mod 64" by simp
  then show ?thesis using split4096 [of c] by linarith
qed

lemma utf8_roundtrip1:
  assumes "c < 0x80"
  shows "utf8_decode_one (of_nat c # rest) = Some (c, rest)"
proof -
  have "unat (of_nat c :: byte) = c" by (rule unat_byte_of_nat) (use assms in simp)
  then show ?thesis using utf8_decode_one_1 [of "of_nat c" rest] assms by simp
qed

lemma utf8_roundtrip2:
  assumes "0x80 \<le> c" "c < 0x800"
  shows "utf8_decode_one (of_nat (0xC0 + c div 64) # of_nat (0x80 + c mod 64) # rest) = Some (c, rest)"
proof -
  define h where "h = c div 64"
  define l where "l = c mod 64"
  have hb: "2 \<le> h" "h < 32" using assms by (simp_all add: h_def)
  have lb: "l < 64" by (simp add: l_def)
  have v: "c = h * 64 + l" unfolding h_def l_def by (rule split64)
  have a: "unat (of_nat (0xC0 + h) :: byte) = 0xC0 + h"
    by (rule unat_byte_of_nat) (use hb in simp)
  have b: "unat (of_nat (0x80 + l) :: byte) = 0x80 + l"
    by (rule unat_byte_of_nat) (use lb in simp)
  show ?thesis
    unfolding h_def [symmetric] l_def [symmetric]
    using utf8_decode_one_2 [OF a hb b lb, of rest] v by simp
qed

lemma utf8_roundtrip3:
  assumes "0x800 \<le> c" "c < 0x10000" "\<not> (0xD800 \<le> c \<and> c < 0xE000)"
  shows "utf8_decode_one (of_nat (0xE0 + c div 4096) # of_nat (0x80 + c div 64 mod 64)
            # of_nat (0x80 + c mod 64) # rest) = Some (c, rest)"
proof -
  define h where "h = c div 4096"
  define m where "m = c div 64 mod 64"
  define l where "l = c mod 64"
  have hb: "h < 16" using assms by (simp add: h_def)
  have mb: "m < 64" and lb: "l < 64" by (simp_all add: m_def l_def)
  have v: "c = h * 4096 + m * 64 + l"
    unfolding h_def m_def l_def by (rule split4096)
  have e0: "32 \<le> m" if "h = 0"
  proof -
    have "c = m * 64 + l" using v that by simp
    then show ?thesis using assms(1) lb by linarith
  qed
  have ed: "m < 32" if "h = 13"
  proof -
    have c: "c = 53248 + m * 64 + l" using v that by simp
    then have "c < 57344" using mb lb by linarith
    then have "c < 55296" using assms(3) by linarith
    then show ?thesis using c by linarith
  qed
  have a: "unat (of_nat (0xE0 + h) :: byte) = 0xE0 + h"
    by (rule unat_byte_of_nat) (use hb in simp)
  have b: "unat (of_nat (0x80 + m) :: byte) = 0x80 + m"
    by (rule unat_byte_of_nat) (use mb in simp)
  have d: "unat (of_nat (0x80 + l) :: byte) = 0x80 + l"
    by (rule unat_byte_of_nat) (use lb in simp)
  show ?thesis
    unfolding h_def [symmetric] m_def [symmetric] l_def [symmetric]
    using utf8_decode_one_3 [OF a hb b mb d lb e0 ed, of rest] v by simp
qed

lemma utf8_roundtrip4:
  assumes "0x10000 \<le> c" "c < 0x110000"
  shows "utf8_decode_one (of_nat (0xF0 + c div 262144) # of_nat (0x80 + c div 4096 mod 64)
            # of_nat (0x80 + c div 64 mod 64) # of_nat (0x80 + c mod 64) # rest) = Some (c, rest)"
proof -
  define g where "g = c div 262144"
  define h where "h = c div 4096 mod 64"
  define m where "m = c div 64 mod 64"
  define l where "l = c mod 64"
  have gb: "g < 5" using assms by (simp add: g_def)
  have hb: "h < 64" and mb: "m < 64" and lb: "l < 64" by (simp_all add: h_def m_def l_def)
  have v: "c = g * 262144 + h * 4096 + m * 64 + l"
    unfolding g_def h_def m_def l_def by (rule split262144)
  have e0: "16 \<le> h" if "g = 0"
  proof -
    have "c = h * 4096 + m * 64 + l" using v that by simp
    then show ?thesis using assms(1) mb lb by linarith
  qed
  have e4: "h < 16" if "g = 4"
  proof -
    have "c = 1048576 + h * 4096 + m * 64 + l" using v that by simp
    then show ?thesis using assms(2) by linarith
  qed
  have a: "unat (of_nat (0xF0 + g) :: byte) = 0xF0 + g"
    by (rule unat_byte_of_nat) (use gb in simp)
  have b: "unat (of_nat (0x80 + h) :: byte) = 0x80 + h"
    by (rule unat_byte_of_nat) (use hb in simp)
  have b2: "unat (of_nat (0x80 + m) :: byte) = 0x80 + m"
    by (rule unat_byte_of_nat) (use mb in simp)
  have d: "unat (of_nat (0x80 + l) :: byte) = 0x80 + l"
    by (rule unat_byte_of_nat) (use lb in simp)
  show ?thesis
    unfolding g_def [symmetric] h_def [symmetric] m_def [symmetric] l_def [symmetric]
    using utf8_decode_one_4 [OF a gb b hb b2 mb d lb e0 e4, of rest] v by simp
qed

lemma utf8_decode_one_encode_cp:
  assumes "utf8_encode_cp c = Inr bs"
  shows "utf8_decode_one (bs @ rest) = Some (c, rest)"
proof -
  consider "c < 0x80" | "0x80 \<le> c" "c < 0x800"
    | "0x800 \<le> c" "c < 0x10000" "\<not> (0xD800 \<le> c \<and> c < 0xE000)"
    | "0xD800 \<le> c \<and> c < 0xE000" | "0x10000 \<le> c" "c < 0x110000" | "0x110000 \<le> c"
    by linarith
  then show ?thesis
  proof cases
    case 1
    then have "bs = [of_nat c]" using assms unfolding utf8_encode_cp_def by simp
    then show ?thesis using utf8_roundtrip1 [OF 1] by simp
  next
    case 2
    then have "bs = [of_nat (0xC0 + c div 64), of_nat (0x80 + c mod 64)]"
      using assms unfolding utf8_encode_cp_def by (auto simp del: of_nat_add)
    then show ?thesis using utf8_roundtrip2 [OF 2] by (simp del: of_nat_add)
  next
    case 3
    then have "bs = [of_nat (0xE0 + c div 4096), of_nat (0x80 + c div 64 mod 64),
                     of_nat (0x80 + c mod 64)]"
      using assms unfolding utf8_encode_cp_def by (auto simp del: of_nat_add)
    then show ?thesis using utf8_roundtrip3 [OF 3] by (simp del: of_nat_add)
  next
    case 4
    then show ?thesis using assms unfolding utf8_encode_cp_def by simp
  next
    case 5
    then have "bs = [of_nat (0xF0 + c div 262144), of_nat (0x80 + c div 4096 mod 64),
                     of_nat (0x80 + c div 64 mod 64), of_nat (0x80 + c mod 64)]"
      using assms unfolding utf8_encode_cp_def by (auto simp del: of_nat_add)
    then show ?thesis using utf8_roundtrip4 [OF 5] by (simp del: of_nat_add)
  next
    case 6
    then show ?thesis using assms unfolding utf8_encode_cp_def by simp
  qed
qed

lemma utf8_encode_cp_nonempty: "utf8_encode_cp c = Inr bs \<Longrightarrow> bs \<noteq> []"
  unfolding utf8_encode_cp_def by (auto split: if_split_asm)

lemma utf8_decode_Nil: "utf8_decode [] = Inr []"
  by (simp add: utf8_decode.simps)

lemma utf8_decode_encode: "utf8_encode s = Inr bs \<Longrightarrow> utf8_decode bs = Inr s"
proof (induction s arbitrary: bs)
  case Nil
  then show ?case by (simp add: utf8_decode_Nil)
next
  case (Cons c cs)
  from Cons.prems obtain b1 rest where
    e: "utf8_encode_cp c = Inr b1" "utf8_encode cs = Inr rest" "bs = b1 @ rest"
    by (auto split: sum.splits)
  have "utf8_decode (b1 @ rest) = Inr (c # cs)"
    using utf8_decode_one_encode_cp [OF e(1), of rest] utf8_encode_cp_nonempty [OF e(1)]
      Cons.IH [OF e(2)]
    by (subst utf8_decode.simps) simp
  with e show ?case by simp
qed


lemma rstrip_snoc_same: "rstrip c (xs @ [c]) = rstrip c xs"
  by (simp add: rstrip_def)

lemma rstrip_replicate: "rstrip c (xs @ replicate n c) = rstrip c xs"
proof (induction n)
  case 0
  then show ?case by simp
next
  case (Suc n)
  have "xs @ replicate (Suc n) c = (xs @ replicate n c) @ [c]"
    by (simp add: replicate_append_same)
  then show ?case using Suc by (simp only: rstrip_snoc_same)
qed

lemma rstrip_last_other: "ys \<noteq> [] \<Longrightarrow> last ys \<noteq> c \<Longrightarrow> rstrip c (xs @ ys) = xs @ ys"
  by (cases ys rule: rev_cases) (simp_all add: rstrip_def)

lemma utf8_encode_cp_zero: "utf8_encode_cp 0 = Inr [0]"
  by (simp add: utf8_encode_cp_def)

lemma byte_of_nat_nonzero: "0 < n \<Longrightarrow> n < 256 \<Longrightarrow> (of_nat n :: byte) \<noteq> 0"
  using unat_byte_of_nat [of n] by auto

lemma utf8_encode_cp_last:
  assumes "utf8_encode_cp c = Inr bs" "c \<noteq> 0"
  shows "last bs \<noteq> 0"
proof -
  have t: "(of_nat (0x80 + c mod 64) :: byte) \<noteq> 0"
    by (rule byte_of_nat_nonzero) simp_all
  have o: "c < 0x80 \<Longrightarrow> (of_nat c :: byte) \<noteq> 0"
    using assms(2) by (intro byte_of_nat_nonzero) simp_all
  show ?thesis
    using assms(1) t o unfolding utf8_encode_cp_def
    by (auto split: if_split_asm simp del: of_nat_add)
qed

lemma utf8_encode_append:
  "utf8_encode (a @ b) =
     (case utf8_encode a of
        Inl e \<Rightarrow> Inl e
      | Inr x \<Rightarrow> (case utf8_encode b of Inl e \<Rightarrow> Inl e | Inr y \<Rightarrow> Inr (x @ y)))"
  by (induction a) (auto split: sum.splits)

lemma utf8_encode_snoc:
  "utf8_encode (a @ [c]) = Inr bs \<Longrightarrow>
   \<exists>x y. utf8_encode a = Inr x \<and> utf8_encode_cp c = Inr y \<and> bs = x @ y"
  by (auto simp: utf8_encode_append split: sum.splits)

lemma utf8_encode_rstrip:
  "utf8_encode s = Inr bs \<Longrightarrow> utf8_encode (rstrip 0 s) = Inr (rstrip 0 bs)"
proof (induction s arbitrary: bs rule: rev_induct)
  case Nil
  then show ?case by (simp add: rstrip_def)
next
  case (snoc c s)
  from utf8_encode_snoc [OF snoc.prems] obtain x y where
    e: "utf8_encode s = Inr x" "utf8_encode_cp c = Inr y" "bs = x @ y" by blast
  show ?case
  proof (cases "c = 0")
    case True
    then have "y = [0]" using e(2) by (simp add: utf8_encode_cp_zero)
    then show ?thesis using True e snoc.IH [OF e(1)] by (simp add: rstrip_snoc_same)
  next
    case False
    have "rstrip 0 (x @ y) = x @ y"
      by (rule rstrip_last_other) (use e(2) False utf8_encode_cp_nonempty utf8_encode_cp_last in blast)+
    moreover have "rstrip 0 (s @ [c]) = s @ [c]"
      by (rule rstrip_last_other) (use False in simp_all)
    ultimately show ?thesis using snoc.prems e(3) by simp
  qed
qed

lemma un_pad_and_decode_padded:
  "utf8_encode s = Inr bs \<Longrightarrow> un_pad_and_decode (bs @ replicate n 0) = Inr (rstrip 0 s)"
  by (simp add: un_pad_and_decode_def rstrip_replicate utf8_encode_rstrip utf8_decode_encode)

lemma rstrip_no_trailing: "s = [] \<or> last s \<noteq> c \<Longrightarrow> rstrip c s = s"
  by (cases s rule: rev_cases) (auto simp: rstrip_def)


section \<open>Padding\<close>

text \<open>
  C4: \<^verbatim>\<open>encrypt(s, k, pad_length=N)\<close> fails with the padding error when the UTF-8
  encoding of \<open>s\<close> is longer than \<open>N\<close> bytes, whatever the key; when it is at most \<open>N\<close>
  bytes, \<^verbatim>\<open>encode_and_pad\<close> right-pads it with NUL bytes to exactly \<open>N\<close> bytes.
\<close>

theorem padding_overflow:
  assumes "utf8_encode s = Inr bs"
  shows "(N < int (length bs) \<longrightarrow>
            encrypt uc ks s k (Some N) = Inl (ValueError_CannotPad (length bs) N))
       \<and> (int (length bs) \<le> N \<longrightarrow>
            encode_and_pad s (Some N) = Inr (bs @ replicate (nat N - length bs) 0)
            \<and> int (length (bs @ replicate (nat N - length bs) 0)) = N)"
  using assms by (auto simp: encrypt_def encode_and_pad_def nat_diff_distrib')

theorem padding_overflow_witness:
  "utf8_encode (lit ''hello'') = Inr (blit ''hello'')
   \<and> encrypt sample_upper sample_keystream (lit ''hello'') sample_key (Some 3)
       = Inl (ValueError_CannotPad 5 3)
   \<and> encode_and_pad (lit ''hello'') (Some 8) = Inr (blit ''hello'' @ [0, 0, 0])"
proof -
  have h: "utf8_encode (lit ''hello'') = Inr (blit ''hello'')" by code_simp
  have l: "length (blit ''hello'') = 5" by (simp add: blit_def)
  show ?thesis
    using h padding_overflow [OF h, of 3 sample_upper sample_keystream sample_key]
      padding_overflow [OF h, of 8 sample_upper sample_keystream sample_key]
    by (simp add: l numeral_eq_Suc)
qed

section \<open>Base32: numbers and their digits\<close>

lemma length_be_digits [simp]: "length (be_digits b k c) = k"
  by (induction k arbitrary: c) simp_all

lemma be_digits_bound: "0 < b \<Longrightarrow> d \<in> set (be_digits b k c) \<Longrightarrow> d < b"
  by (induction k arbitrary: c) auto

lemma foldl_be_digits:
  "foldl (\<lambda>acc d. acc * b + d) a (be_digits b k c) = a * b ^ k + c mod b ^ k"
proof (induction k arbitrary: c)
  case 0
  then show ?case by simp
next
  case (Suc k)
  have "c mod (b * b ^ k) = b * (c div b mod b ^ k) + c mod b"
    by (rule mod_mult2_eq)
  then show ?case using Suc [of "c div b"] by (simp add: algebra_simps)
qed

lemma be_digits_foldl:
  "list_all (\<lambda>d. d < b) ds \<Longrightarrow> be_digits b (length ds) (foldl (\<lambda>acc d. acc * b + d) 0 ds) = ds"
proof (induction ds rule: rev_induct)
  case Nil
  then show ?case by simp
next
  case (snoc d ds)
  then have "d < b" and ih: "be_digits b (length ds) (foldl (\<lambda>acc d. acc * b + d) 0 ds) = ds"
    by simp_all
  then show ?case by simp
qed

lemma be_digits_add:
  "be_digits b (j + i) c = be_digits b j (c div b ^ i) @ be_digits b i c"
proof (induction i arbitrary: c)
  case 0
  then show ?case by simp
next
  case (Suc i)
  have "c div b div b ^ i = c div (b * b ^ i)" by (simp add: div_mult2_eq)
  then show ?case using Suc [of "c div b"] by simp
qed

lemma take_be_digits:
  "j \<le> k \<Longrightarrow> take j (be_digits b k c) = be_digits b j (c div b ^ (k - j))"
  using be_digits_add [of b j "k - j" c] by simp

lemma from_bytes_digits: "from_bytes bs = foldl (\<lambda>acc d. acc * 256 + d) 0 (map unat bs)"
  by (simp add: from_bytes_def foldl_map)

lemma from_bytes_snoc: "from_bytes (bs @ [x]) = from_bytes bs * 256 + unat x"
  by (simp add: from_bytes_def)

lemma from_bytes_bound: "from_bytes bs < 256 ^ length bs"
proof (induction bs rule: rev_induct)
  case Nil
  then show ?case by (simp add: from_bytes_def)
next
  case (snoc x bs)
  have "unat x < 256" using unsigned_less [of x, where 'a = nat] by simp
  moreover have "from_bytes bs + 1 \<le> 256 ^ length bs" using snoc by simp
  then have "(from_bytes bs + 1) * 256 \<le> 256 ^ length bs * 256" by (rule mult_le_mono1)
  ultimately show ?case by (simp add: from_bytes_snoc)
qed

lemma from_bytes_zeros: "from_bytes (bs @ replicate n 0) = from_bytes bs * 256 ^ n"
proof (induction n)
  case 0
  then show ?case by simp
next
  case (Suc n)
  have "bs @ replicate (Suc n) 0 = (bs @ replicate n 0) @ [0]"
    by (simp add: replicate_append_same)
  then have "from_bytes (bs @ replicate (Suc n) 0) = from_bytes (bs @ replicate n 0) * 256 + unat (0 :: byte)"
    by (simp only: from_bytes_snoc)
  then show ?case using Suc by simp
qed

lemma be_digits_from_bytes: "be_digits 256 (length bs) (from_bytes bs) = map unat bs"
proof -
  have "unat x < 256" for x :: byte using unsigned_less [of x, where 'a = nat] by simp
  then have "list_all (\<lambda>d. d < 256) (map unat bs)"
    by (simp add: list_all_iff)
  from be_digits_foldl [OF this] show ?thesis by (simp add: from_bytes_digits)
qed

lemma be_digits_5:
  "be_digits b 5 n = [n div b div b div b div b mod b, n div b div b div b mod b,
                      n div b div b mod b, n div b mod b, n mod b]"
  by (simp add: eval_nat_numeral)

lemma byte_of_nat_mod: "(of_nat (a mod 256) :: byte) = of_nat a"
  by (simp add: word_of_nat_eq_iff take_bit_eq_mod)

lemma to_bytes5_digits:
  assumes "n < 2 ^ 40"
  shows "to_bytes5 n = Inr (map of_nat (be_digits 256 5 n))"
proof -
  have d: "n div 256 div 256 = n div 2 ^ 16" "n div 256 div 256 div 256 = n div 2 ^ 24"
    "n div 256 div 256 div 256 div 256 = n div 2 ^ 32" "n div 256 = n div 2 ^ 8"
    by (simp_all add: div_mult2_eq [symmetric])
  have "to_bytes5 n = Inr [of_nat (n div 2 ^ 32), of_nat (n div 2 ^ 24), of_nat (n div 2 ^ 16),
                of_nat (n div 2 ^ 8), of_nat n]"
    using assms unfolding to_bytes5_def by (rule if_P)
  also have "[of_nat (n div 2 ^ 32), of_nat (n div 2 ^ 24), of_nat (n div 2 ^ 16),
                of_nat (n div 2 ^ 8), of_nat n] = (map of_nat (be_digits 256 5 n) :: bytes)"
    by (simp only: be_digits_5 list.map byte_of_nat_mod) (simp add: div_mult2_eq [symmetric])
  finally show ?thesis .
qed

lemma to_bytes5_from_bytes:
  assumes "length q = 5"
  shows "to_bytes5 (from_bytes q) = Inr q"
proof -
  have "from_bytes q < 2 ^ 40" using from_bytes_bound [of q] assms by simp
  then have "to_bytes5 (from_bytes q) = Inr (map of_nat (be_digits 256 (length q) (from_bytes q)))"
    using assms by (simp add: to_bytes5_digits)
  then show ?thesis by (simp add: be_digits_from_bytes comp_def)
qed


lemma length_b32alphabet: "length b32alphabet = 32"
  by (simp add: b32alphabet_def blit_def)

lemma upt_32:
  "[0 ..< 32] = [0, 1, 2, 3, 4, 5, 6, 7, 8, 9, 10, 11, 12, 13, 14, 15, 16, 17, 18, 19, 20,
     21, 22, 23, 24, 25, 26, 27, 28, 29, 30, 31 :: nat]"
  by (simp add: upt_conv_Cons)

lemma b32_table_facts:
  "list_all (\<lambda>d. b32rev (b32alphabet ! d) = Some d \<and> b32_upper_char (b32alphabet ! d)) [0 ..< 32]"
  unfolding upt_32 by (simp add: b32rev_def b32alphabet_def blit_def b32_upper_char_def upt_32)

lemma b32rev_alphabet: "d < 32 \<Longrightarrow> b32rev (b32alphabet ! d) = Some d"
  using b32_table_facts by (simp add: list_all_iff)

lemma b32_upper_char_alphabet: "d < 32 \<Longrightarrow> b32_upper_char (b32alphabet ! d)"
  using b32_table_facts by (simp add: list_all_iff)

lemma b32rev_range: "b32rev x = Some v \<Longrightarrow> v < 32 \<and> x = b32alphabet ! v"
proof -
  assume "b32rev x = Some v"
  then have "(x, v) \<in> set (zip b32alphabet [0 ..< 32])"
    unfolding b32rev_def by (rule map_of_SomeD)
  then show ?thesis
    by (auto simp: set_zip length_b32alphabet)
qed

lemma be_digits_8:
  "be_digits b 8 n =
     [n div b div b div b div b div b div b div b mod b, n div b div b div b div b div b div b mod b,
      n div b div b div b div b div b mod b, n div b div b div b div b mod b,
      n div b div b div b mod b, n div b div b mod b, n div b mod b, n mod b]"
  by (simp add: eval_nat_numeral)

lemma mod1024_div32: "(x :: nat) mod 1024 div 32 = x div 32 mod 32"
proof -
  have "x mod (32 * 32) = 32 * (x div 32 mod 32) + x mod 32" by (rule mod_mult2_eq)
  then show ?thesis by simp
qed

lemma mod1024_mod32: "(x :: nat) mod 1024 mod 32 = x mod 32"
  by (simp add: mod_mod_cancel)

lemma encode_quantum_digits:
  assumes "from_bytes q < 2 ^ 40"
  shows "encode_quantum q = map (\<lambda>d. b32alphabet ! d) (be_digits 32 8 (from_bytes q))"
proof -
  define c where "c = from_bytes q"
  have "c div 2 ^ 35 < 32" using assms unfolding c_def by (simp add: less_mult_imp_div_less)
  then have top: "c div 2 ^ 35 mod 32 = c div 2 ^ 35" by simp
  have "encode_quantum q =
      map (\<lambda>d. b32alphabet ! d)
        [c div 2 ^ 30 div 32, c div 2 ^ 30 mod 32, c div 2 ^ 20 div 32 mod 32, c div 2 ^ 20 mod 32,
         c div 2 ^ 10 div 32 mod 32, c div 2 ^ 10 mod 32, c div 32 mod 32, c mod 32]"
    by (simp only: encode_quantum_def Let_def b32tab2_def c_def [symmetric] mod1024_div32
        mod1024_mod32 list.map append.simps)
  also have "[c div 2 ^ 30 div 32, c div 2 ^ 30 mod 32, c div 2 ^ 20 div 32 mod 32, c div 2 ^ 20 mod 32,
         c div 2 ^ 10 div 32 mod 32, c div 2 ^ 10 mod 32, c div 32 mod 32, c mod 32]
       = be_digits 32 8 c"
    using top by (simp only: be_digits_8) (simp add: div_mult2_eq [symmetric])
  finally show ?thesis by (simp only: c_def)
qed

lemma length_encode_quantum: "length (encode_quantum q) = 8"
  by (simp add: encode_quantum_def Let_def b32tab2_def)

lemma quantum_acc_digits:
  "list_all (\<lambda>d. d < 32) ds \<Longrightarrow>
   quantum_acc (map (\<lambda>d. b32alphabet ! d) ds) acc = Inr (foldl (\<lambda>a d. a * 32 + d) acc ds)"
  by (induction ds arbitrary: acc) (simp_all add: b32rev_alphabet)

lemma list_all_be_digits: "0 < b \<Longrightarrow> list_all (\<lambda>d. d < b) (be_digits b k c)"
  using be_digits_bound [of b _ k c] by (simp add: list_all_iff)

lemma quantum_acc_encode_quantum:
  assumes "length q = 5"
  shows "quantum_acc (encode_quantum q) 0 = Inr (from_bytes q)"
proof -
  have b: "from_bytes q < 2 ^ 40" using from_bytes_bound [of q] assms by simp
  have "quantum_acc (encode_quantum q) 0
        = Inr (foldl (\<lambda>a d. a * 32 + d) 0 (be_digits 32 8 (from_bytes q)))"
    by (simp only: encode_quantum_digits [OF b] quantum_acc_digits [OF list_all_be_digits] zero_less_numeral)
  also have "\<dots> = Inr (from_bytes q mod 32 ^ 8)" by (simp only: foldl_be_digits) simp
  finally show ?thesis using b by simp
qed


lemma chunks_Nil: "chunks n [] = []"
  by (simp add: chunks.simps)

lemma chunks_exact: "length q = n \<Longrightarrow> 0 < n \<Longrightarrow> chunks n (q @ rest) = q # chunks n rest"
  by (subst chunks.simps) auto

lemma chunks_concat:
  "list_all (\<lambda>q. length q = n) qs \<Longrightarrow> 0 < n \<Longrightarrow> chunks n (concat qs @ rest) = qs @ chunks n rest"
  by (induction qs) (simp_all add: chunks_exact)

lemma chunks_short: "rest \<noteq> [] \<Longrightarrow> length rest \<le> n \<Longrightarrow> chunks n rest = [rest]"
  by (subst chunks.simps) (cases rest; auto simp: chunks_Nil)

lemma length_concat_uniform:
  "list_all (\<lambda>q. length q = n) qs \<Longrightarrow> length (concat qs) = n * length qs"
  by (induction qs) simp_all

lemma split5:
  "\<exists>qs rest. s = concat qs @ rest \<and> list_all (\<lambda>q. length q = 5) qs \<and> length rest < 5"
proof (induction s rule: length_induct)
  case (1 s)
  show ?case
  proof (cases "length s < 5")
    case True
    then have "s = concat [] @ s \<and> list_all (\<lambda>q. length q = 5) [] \<and> length s < 5" by simp
    then show ?thesis by blast
  next
    case False
    then have "length (drop 5 s) < length s" by simp
    with 1 obtain qs rest where
      r: "drop 5 s = concat qs @ rest" "list_all (\<lambda>q. length q = 5) qs" "length rest < 5" by blast
    have "s = take 5 s @ drop 5 s" by simp
    then have "s = concat (take 5 s # qs) @ rest" using r(1) by simp
    moreover have "list_all (\<lambda>q. length q = 5) (take 5 s # qs)" using r(2) False by simp
    ultimately show ?thesis using r(3) by blast
  qed
qed

lemma b32encode_full:
  assumes "list_all (\<lambda>q. length q = 5) qs"
  shows "b32encode (concat qs) = concat (map encode_quantum qs)"
proof -
  have l: "length (concat qs) mod 5 = 0" by (simp add: length_concat_uniform [OF assms])
  have "chunks 5 (concat qs) = qs" using chunks_concat [OF assms, of "[]"] by (simp add: chunks_Nil)
  then show ?thesis using l by (simp add: b32encode_def)
qed

lemma set_tail_append:
  "length B = 8 \<Longrightarrow> p \<le> 8 \<Longrightarrow>
   set_tail p (A @ B) = A @ take (8 - p) B @ replicate p (of_char CHR ''='')"
  by (simp add: set_tail_def)

lemma b32encode_partial:
  assumes "list_all (\<lambda>q. length q = 5) qs" "rest \<noteq> []" "length rest < 5"
  shows "b32encode (concat qs @ rest) =
           concat (map encode_quantum qs)
           @ take (8 - pad_chars (length rest)) (encode_quantum (rest @ replicate (5 - length rest) 0))
           @ replicate (pad_chars (length rest)) (of_char CHR ''='')"
proof -
  define lastq where "lastq = rest @ replicate (5 - length rest) (0 :: byte)"
  define A where "A = concat (map encode_quantum qs)"
  have "0 < length rest" using assms(2) by simp
  then have r: "length rest = 1 \<or> length rest = 2 \<or> length rest = 3 \<or> length rest = 4"
    using assms(3) by linarith
  have l: "length (concat qs @ rest) mod 5 = length rest"
    using assms(3) by (simp add: length_concat_uniform [OF assms(1)])
  have lq: "length lastq = 5" using assms(3) by (simp add: lastq_def)
  have ne: "lastq \<noteq> []" using lq by auto
  have "chunks 5 (concat qs @ lastq) = qs @ [lastq]"
    using chunks_concat [OF assms(1), of lastq] chunks_short [OF ne, of 5] lq by simp
  then have e: "concat (map encode_quantum (chunks 5 ((concat qs @ rest) @ replicate (5 - length rest) 0)))
        = A @ encode_quantum lastq"
    by (simp add: lastq_def A_def)
  have st: "set_tail p (A @ encode_quantum lastq)
        = A @ take (8 - p) (encode_quantum lastq) @ replicate p (of_char CHR ''='')" if "p \<le> 8" for p
    using that by (rule set_tail_append [OF length_encode_quantum])
  have "b32encode (concat qs @ rest) =
        (if length rest = 1 then set_tail 6 (A @ encode_quantum lastq)
         else if length rest = 2 then set_tail 4 (A @ encode_quantum lastq)
         else if length rest = 3 then set_tail 3 (A @ encode_quantum lastq)
         else set_tail 1 (A @ encode_quantum lastq))"
    unfolding b32encode_def Let_def l using r e by auto
  also have "\<dots> = set_tail (pad_chars (length rest)) (A @ encode_quantum lastq)"
    by (simp add: pad_chars_def)
  also have "\<dots> = A @ take (8 - pad_chars (length rest)) (encode_quantum lastq)
                      @ replicate (pad_chars (length rest)) (of_char CHR ''='')"
    by (rule st) (simp add: pad_chars_def)
  finally show ?thesis unfolding A_def lastq_def .
qed


section \<open>Base32: decoding an encoding\<close>

lemma decode_quanta_full:
  "list_all (\<lambda>q. length q = 5) qs \<Longrightarrow>
   decode_quanta (map encode_quantum qs @ more) (d, a) =
     decode_quanta more (d @ concat qs, if qs = [] then a else from_bytes (last qs))"
proof (induction qs arbitrary: d a)
  case Nil
  then show ?case by simp
next
  case (Cons q qs)
  then have q: "length q = 5" and qs: "list_all (\<lambda>q. length q = 5) qs" by simp_all
  show ?case
    using Cons.IH [OF qs, of "d @ q" "from_bytes q"]
    by (simp add: quantum_acc_encode_quantum [OF q] to_bytes5_from_bytes [OF q])
qed

lemma rstrip_absent: "c \<notin> set xs \<Longrightarrow> rstrip c xs = xs"
  by (rule rstrip_no_trailing) (cases xs rule: rev_cases; auto)

lemma rstrip_padding:
  "c \<notin> set xs \<Longrightarrow> rstrip c (xs @ replicate n c) = xs"
  by (simp add: rstrip_replicate rstrip_absent)

lemma b32_upper_char_not_pad: "b32_upper_char x \<Longrightarrow> x \<noteq> of_char CHR ''=''"
  by (auto simp: b32_upper_char_def)

lemma encode_quantum_chars:
  assumes "length q \<le> 5"
  shows "list_all b32_upper_char (encode_quantum q)"
proof -
  have "from_bytes q < 256 ^ 5"
    using from_bytes_bound [of q] assms
    by (meson le_less_trans not_less one_less_numeral_iff power_increasing_iff semiring_norm(76) less_le_trans)
  then have b: "from_bytes q < 2 ^ 40" by simp
  show ?thesis
    unfolding encode_quantum_digits [OF b] list_all_iff
    using be_digits_bound [of 32 _ 8 "from_bytes q"] b32_upper_char_alphabet by auto
qed

lemma encode_quanta_chars:
  "list_all (\<lambda>q. length q = 5) qs \<Longrightarrow> list_all b32_upper_char (concat (map encode_quantum qs))"
  by (induction qs) (simp_all add: encode_quantum_chars)

lemma list_all_no_pad:
  "list_all b32_upper_char xs \<Longrightarrow> of_char CHR ''='' \<notin> set xs"
  using b32_upper_char_not_pad by (auto simp: list_all_iff)

lemma length_encode_quanta:
  "length (concat (map encode_quantum qs)) = 8 * length qs"
  by (induction qs) (simp_all add: length_encode_quantum)

lemma all_length_encode_quantum:
  "list_all (\<lambda>q. length q = 8) (map encode_quantum qs)"
  by (simp add: list_all_iff length_encode_quantum)

lemma b32decode_full:
  assumes "list_all (\<lambda>q. length q = 5) qs"
  shows "b32decode (concat (map encode_quantum qs)) = Inr (concat qs)"
proof -
  define A where "A = concat (map encode_quantum qs)"
  have l: "length A mod 8 = 0" by (simp add: A_def length_encode_quanta)
  have r: "rstrip (of_char CHR ''='') A = A"
    unfolding A_def by (intro rstrip_absent list_all_no_pad encode_quanta_chars assms)
  have c: "chunks 8 A = map encode_quantum qs"
    using chunks_concat [OF all_length_encode_quantum, where rest = "[]" and qs1 = qs]
    by (simp add: A_def chunks_Nil)
  have d: "decode_quanta (map encode_quantum qs) ([], 0)
           = Inr (concat qs, if qs = [] then 0 else from_bytes (last qs))"
    using decode_quanta_full [OF assms, of "[]" "[]" 0] by simp
  show ?thesis
    unfolding A_def [symmetric] b32decode_def Let_def r c d using l by simp
qed


lemma pad_chars_cases:
  assumes "0 < r" "r < 5"
  shows "pad_chars r \<in> {1, 3, 4, 6} \<and> (43 - 5 * pad_chars r) div 8 = r
         \<and> (\<exists>k. (256::nat) ^ (5 - r) = k * 32 ^ pad_chars r)"
proof -
  from assms have "r = 1 \<or> r = 2 \<or> r = 3 \<or> r = 4" by linarith
  then show ?thesis
  proof (elim disjE)
    assume "r = 1"
    moreover have "(256::nat) ^ 4 = 4 * 32 ^ 6" by simp
    ultimately show ?thesis by (auto simp: pad_chars_def)
  next
    assume "r = 2"
    moreover have "(256::nat) ^ 3 = 16 * 32 ^ 4" by simp
    ultimately show ?thesis by (auto simp: pad_chars_def)
  next
    assume "r = 3"
    moreover have "(256::nat) ^ 2 = 2 * 32 ^ 3" by simp
    ultimately show ?thesis by (auto simp: pad_chars_def)
  next
    assume "r = 4"
    moreover have "(256::nat) ^ 1 = 8 * 32 ^ 1" by simp
    ultimately show ?thesis by (auto simp: pad_chars_def)
  qed
qed

lemma to_bytes5_length: "to_bytes5 n = Inr bs \<Longrightarrow> length bs = 5"
  by (auto simp: to_bytes5_def split: if_split_asm)

lemma partial_quantum:
  assumes "rest \<noteq> []" "length rest < 5"
  defines "lastq \<equiv> rest @ replicate (5 - length rest) (0 :: byte)"
  defines "p \<equiv> pad_chars (length rest)"
  defines "acc \<equiv> from_bytes lastq div 32 ^ p"
  shows "quantum_acc (take (8 - p) (encode_quantum lastq)) 0 = Inr acc"
    and "\<exists>j. to_bytes5 acc = Inr j \<and> length j = 5"
    and "to_bytes5 (acc * 2 ^ (5 * p)) = Inr lastq"
    and "take ((43 - 5 * p) div 8) lastq = rest"
proof -
  define c where "c = from_bytes lastq"
  have r: "0 < length rest" using assms(1) by simp
  note pc = pad_chars_cases [OF r assms(2), folded p_def]
  have p8: "p \<le> 8" using pc by auto
  have lq: "length lastq = 5" using assms(2) by (simp add: lastq_def)
  have cb: "c < 2 ^ 40" using from_bytes_bound [of lastq] lq by (simp add: c_def)
  from pc obtain k where "(256::nat) ^ (5 - length rest) = k * 32 ^ p" by blast
  then have "c = from_bytes rest * k * 32 ^ p"
    by (simp add: c_def lastq_def from_bytes_zeros)
  then have cm: "acc * 32 ^ p = c"
    by (simp add: acc_def c_def [symmetric])
  have "(32::nat) ^ 8 = 32 ^ (8 - p) * 32 ^ p"
    using p8 by (simp add: power_add [symmetric])
  then have "c < 32 ^ (8 - p) * 32 ^ p" using cb by simp
  then have ab: "acc < 32 ^ (8 - p)"
    unfolding acc_def c_def [symmetric] by (rule less_mult_imp_div_less)
  have "take (8 - p) (encode_quantum lastq)
        = map (\<lambda>d. b32alphabet ! d) (be_digits 32 (8 - p) acc)"
    using p8 cb
    by (simp add: encode_quantum_digits c_def [symmetric] take_map take_be_digits acc_def)
  then have "quantum_acc (take (8 - p) (encode_quantum lastq)) 0
        = Inr (foldl (\<lambda>a d. a * 32 + d) 0 (be_digits 32 (8 - p) acc))"
    by (simp only: quantum_acc_digits [OF list_all_be_digits] zero_less_numeral)
  also have "\<dots> = Inr (acc mod 32 ^ (8 - p))" by (simp only: foldl_be_digits) simp
  finally show "quantum_acc (take (8 - p) (encode_quantum lastq)) 0 = Inr acc"
    using ab by simp
  have "acc \<le> c" by (simp add: acc_def c_def)
  then have "acc < 2 ^ 40" using cb by simp
  then show "\<exists>j. to_bytes5 acc = Inr j \<and> length j = 5"
    by (simp add: to_bytes5_digits)
  have "(2::nat) ^ (5 * p) = 32 ^ p" by (simp add: power_mult)
  then have "acc * 2 ^ (5 * p) = c" using cm by simp
  then show "to_bytes5 (acc * 2 ^ (5 * p)) = Inr lastq"
    by (simp add: c_def to_bytes5_from_bytes [OF lq])
  show "take ((43 - 5 * p) div 8) lastq = rest"
    using pc by (simp add: lastq_def)
qed

lemma b32decode_partial:
  assumes "list_all (\<lambda>q. length q = 5) qs" "rest \<noteq> []" "length rest < 5"
  shows "b32decode (concat (map encode_quantum qs)
           @ take (8 - pad_chars (length rest)) (encode_quantum (rest @ replicate (5 - length rest) 0))
           @ replicate (pad_chars (length rest)) (of_char CHR ''=''))
         = Inr (concat qs @ rest)"
proof -
  define lastq where "lastq = rest @ replicate (5 - length rest) (0 :: byte)"
  define p where "p = pad_chars (length rest)"
  define acc where "acc = from_bytes lastq div 32 ^ p"
  define A where "A = concat (map encode_quantum qs)"
  define T where "T = take (8 - p) (encode_quantum lastq)"
  define E where "E = A @ T @ replicate p (of_char CHR ''='')"
  note pq0 = partial_quantum [OF assms(2,3), folded lastq_def p_def]
  note pq = pq0 [folded acc_def T_def]
  have r: "0 < length rest" using assms(2) by simp
  note pc = pad_chars_cases [OF r assms(3), folded p_def]
  have p8: "p \<le> 8" and p0: "p \<noteq> 0" and pin: "p \<in> {0, 1, 3, 4, 6}" using pc by auto
  have lq: "length lastq = 5" using assms(3) by (simp add: lastq_def)
  have lT: "length T = 8 - p" by (simp add: T_def length_encode_quantum)
  have Tne: "T \<noteq> []" using lT pc by auto
  have lE: "length E = 8 * length qs + 8"
    using p8 by (simp add: E_def A_def length_encode_quanta lT)
  have f1: "length E mod 8 = 0" by (simp add: lE)
  have "list_all b32_upper_char T"
    unfolding T_def using encode_quantum_chars [of lastq] lq
    by (auto simp: list_all_iff dest: in_set_takeD)
  then have "list_all b32_upper_char (A @ T)"
    using encode_quanta_chars [OF assms(1)] by (simp add: A_def)
  then have "of_char CHR ''='' \<notin> set (A @ T)" by (rule list_all_no_pad)
  then have "rstrip (of_char CHR ''='') ((A @ T) @ replicate p (of_char CHR ''='')) = A @ T"
    by (rule rstrip_padding)
  then have f2: "rstrip (of_char CHR ''='') E = A @ T" by (simp add: E_def)
  have f3: "length E - length (A @ T) = p" by (simp add: E_def)
  have "chunks 8 (A @ T) = map encode_quantum qs @ chunks 8 T"
    unfolding A_def by (rule chunks_concat [OF all_length_encode_quantum]) simp
  then have ch: "chunks 8 (A @ T) = map encode_quantum qs @ [T]"
    using chunks_short [OF Tne, of 8] lT by simp
  from pq(2) obtain j where j: "to_bytes5 acc = Inr j" "length j = 5" by blast
  have f4: "decode_quanta (chunks 8 (A @ T)) ([], 0) = Inr (concat qs @ j, acc)"
    unfolding ch decode_quanta_full [OF assms(1)] by (simp add: pq(1) j(1))
  have f5: "take (length (concat qs @ j) - 5) (concat qs @ j) = concat qs"
    using j(2) by simp
  have jne: "concat qs @ j \<noteq> []" using j(2) by auto
  have "b32decode E = Inr (concat qs @ rest)"
    unfolding b32decode_def Let_def f2 f3 f4
    using f1 pin p0 jne by (simp add: pq(3) pq(4) j(2))
  then show ?thesis
    unfolding E_def A_def T_def p_def lastq_def .
qed

lemma b32decode_b32encode: "b32decode (b32encode s) = Inr s"
proof -
  from split5 [of s] obtain qs rest where
    s: "s = concat qs @ rest" "list_all (\<lambda>q. length q = 5) qs" "length rest < 5" by blast
  show ?thesis
  proof (cases "rest = []")
    case True
    then show ?thesis using s b32encode_full [OF s(2)] b32decode_full [OF s(2)] by simp
  next
    case False
    show ?thesis
      unfolding s(1) b32encode_partial [OF s(2) False s(3)]
      by (rule b32decode_partial [OF s(2) False s(3)])
  qed
qed


section \<open>The text-safety codec is reversible\<close>

lemma b32encode_chars: "list_all b32_char (b32encode s)"
proof -
  from split5 [of s] obtain qs rest where
    s: "s = concat qs @ rest" "list_all (\<lambda>q. length q = 5) qs" "length rest < 5" by blast
  have u: "list_all b32_upper_char xs \<Longrightarrow> list_all b32_char xs" for xs
    by (simp add: list_all_iff b32_char_def)
  show ?thesis
  proof (cases "rest = []")
    case True
    then show ?thesis using s b32encode_full [OF s(2)] u [OF encode_quanta_chars [OF s(2)]] by simp
  next
    case False
    have "list_all b32_upper_char (encode_quantum (rest @ replicate (5 - length rest) 0))"
      by (rule encode_quantum_chars) (use s(3) in simp)
    then have "list_all b32_char (take n (encode_quantum (rest @ replicate (5 - length rest) 0)))" for n
      by (auto simp: list_all_iff b32_char_def dest: in_set_takeD)
    moreover have "list_all b32_char (replicate n (of_char CHR ''=''))" for n
      by (simp add: list_all_iff b32_char_def)
    ultimately show ?thesis
      unfolding s(1) b32encode_partial [OF s(2) False s(3)]
      using u [OF encode_quanta_chars [OF s(2)]] by simp
  qed
qed

lemma b32_char_unat:
  "b32_char x \<Longrightarrow> 65 \<le> unat x \<and> unat x \<le> 90 \<or> 50 \<le> unat x \<and> unat x \<le> 55 \<or> unat x = 61"
  by (auto simp: b32_char_def b32_upper_char_def)

lemma safe_char_roundtrip:
  assumes "b32_char x"
  shows "replace1 57 61 (upper_cp uc (lower_cp (if unat x = 61 then 57 else unat x))) = [unat x]"
  using b32_char_unat [OF assms]
  by (auto simp: replace1_def upper_cp_def lower_cp_def)

lemma replace1_append: "replace1 a b (xs @ ys) = replace1 a b xs @ replace1 a b ys"
  by (simp add: replace1_def)

lemma safe_string_roundtrip:
  "list_all b32_char E \<Longrightarrow>
   replace1 57 61 (str_upper uc (str_lower (replace1 61 57 (map unat E)))) = map unat E"
proof (induction E)
  case Nil
  then show ?case by (simp add: replace1_def str_upper_def str_lower_def)
next
  case (Cons x E)
  then have x: "b32_char x" and ih:
    "replace1 57 61 (str_upper uc (str_lower (replace1 61 57 (map unat E)))) = map unat E"
    by simp_all
  have "str_upper uc (str_lower (replace1 61 57 (map unat (x # E))))
        = upper_cp uc (lower_cp (if unat x = 61 then 57 else unat x))
          @ str_upper uc (str_lower (replace1 61 57 (map unat E)))"
    by (simp add: str_upper_def str_lower_def replace1_def)
  then show ?case
    using safe_char_roundtrip [OF x, of uc] ih by (simp only: replace1_append) simp
qed

lemma b32_chars_ascii: "list_all b32_char E \<Longrightarrow> list_all (\<lambda>b. unat b < 128) E"
  using b32_char_unat by (fastforce simp: list_all_iff)

lemma to_safe_string_eq:
  "to_safe_string s = Inr (str_lower (replace1 61 57 (map unat (b32encode s))))"
  using b32_chars_ascii [OF b32encode_chars [of s]]
  by (simp add: to_safe_string_def decode_ascii_def)

lemma from_safe_string_to_safe_string:
  "to_safe_string s = Inr t \<Longrightarrow> from_safe_string uc t = Inr s"
proof -
  assume "to_safe_string s = Inr t"
  then have t: "t = str_lower (replace1 61 57 (map unat (b32encode s)))"
    by (simp add: to_safe_string_eq)
  have a: "replace1 57 61 (str_upper uc t) = map unat (b32encode s)"
    unfolding t by (rule safe_string_roundtrip [OF b32encode_chars])
  have "list_all (\<lambda>c. c < 128) (map unat (b32encode s))"
    using b32_chars_ascii [OF b32encode_chars [of s]] by (simp add: list_all_iff)
  then have "encode_ascii (map unat (b32encode s)) = Inr (b32encode s)"
    by (simp add: encode_ascii_def comp_def)
  then show ?thesis
    by (simp add: from_safe_string_def a b32decode_b32encode)
qed


text \<open>
  C2: for every byte sequence \<open>b\<close>, of any length, \<^verbatim>\<open>to_safe_string(b)\<close> returns a string
  and \<^verbatim>\<open>from_safe_string\<close> of that string is \<open>b\<close>.
\<close>

theorem safe_string_roundtrip_bytes:
  "\<exists>t. to_safe_string b = Inr t \<and> from_safe_string uc t = Inr b"
proof -
  have e: "to_safe_string b = Inr (str_lower (replace1 61 57 (map unat (b32encode b))))"
    by (rule to_safe_string_eq)
  from from_safe_string_to_safe_string [OF e] e show ?thesis by blast
qed

theorem safe_string_roundtrip_bytes_witness:
  "to_safe_string (blit ''foo'') = Inr (lit ''mzxw6999'')
   \<and> from_safe_string sample_upper (lit ''mzxw6999'') = Inr (blit ''foo'')"
proof -
  have e: "to_safe_string (blit ''foo'') = Inr (lit ''mzxw6999'')" by code_simp
  from safe_string_roundtrip_bytes [of "blit ''foo''" sample_upper]
  show ?thesis by (simp add: e)
qed

section \<open>Keys: the text of a key and its 32 bytes\<close>

lemma b32_letters: "list_all (\<lambda>n. b32alphabet ! (n - 65) = (of_nat n :: byte)) [65 ..< 91]"
  by (simp add: b32alphabet_def blit_def)

lemma b32_digits: "list_all (\<lambda>n. b32alphabet ! (n - 24) = (of_nat n :: byte)) [50 ..< 56]"
  by (simp add: b32alphabet_def blit_def)

lemma b32_upper_char_index:
  assumes "b32_upper_char x"
  shows "\<exists>d<32. x = b32alphabet ! d"
proof -
  have x: "x = of_nat (unat x)" by simp
  from assms consider "65 \<le> unat x" "unat x \<le> 90" | "50 \<le> unat x" "unat x \<le> 55"
    by (auto simp: b32_upper_char_def)
  then show ?thesis
  proof cases
    case 1
    then have "unat x \<in> set [65 ..< 91]" by (simp only: set_upt atLeastLessThan_iff) simp
    moreover have "\<forall>n\<in>set [65 ..< 91]. b32alphabet ! (n - 65) = (of_nat n :: byte)"
      using b32_letters by (simp only: list_all_iff)
    ultimately have "b32alphabet ! (unat x - 65) = (of_nat (unat x) :: byte)" by blast
    moreover have "unat x - 65 < 32" using 1 by simp
    ultimately show ?thesis using x by metis
  next
    case 2
    then have "unat x \<in> set [50 ..< 56]" by (simp only: set_upt atLeastLessThan_iff) simp
    moreover have "\<forall>n\<in>set [50 ..< 56]. b32alphabet ! (n - 24) = (of_nat n :: byte)"
      using b32_digits by (simp only: list_all_iff)
    ultimately have "b32alphabet ! (unat x - 24) = (of_nat (unat x) :: byte)" by blast
    moreover have "unat x - 24 < 32" using 2 by simp
    ultimately show ?thesis using x by metis
  qed
qed

lemma b32rev_upper_char: "b32_upper_char x \<Longrightarrow> \<exists>d<32. b32rev x = Some d"
  using b32_upper_char_index [of x] b32rev_alphabet by auto

lemma quantum_acc_upper:
  "list_all b32_upper_char q \<Longrightarrow> \<exists>v. quantum_acc q a = Inr v \<and> v < (a + 1) * 32 ^ length q"
proof (induction q arbitrary: a)
  case Nil
  then show ?case by simp
next
  case (Cons c cs)
  then have c: "b32_upper_char c" and cs: "list_all b32_upper_char cs" by simp_all
  from b32rev_upper_char [OF c] obtain d where d: "d < 32" "b32rev c = Some d" by blast
  from Cons.IH [OF cs, of "a * 32 + d"] obtain v where
    v: "quantum_acc cs (a * 32 + d) = Inr v" "v < (a * 32 + d + 1) * 32 ^ length cs" by blast
  have "a * 32 + d + 1 \<le> (a + 1) * 32" using d(1) by simp
  then have le: "(a * 32 + d + 1) * 32 ^ length cs \<le> (a + 1) * 32 * 32 ^ length cs"
    by (rule mult_le_mono1)
  have e: "(a + 1) * 32 ^ length (c # cs) = (a + 1) * 32 * 32 ^ length cs"
    by (simp add: algebra_simps)
  have "v < (a + 1) * 32 ^ length (c # cs)"
    unfolding e using v(2) le by (rule less_le_trans)
  then show ?case using d(2) v(1) by simp
qed

lemma decode_quanta_upper:
  "list_all (\<lambda>q. length q \<le> 8 \<and> list_all b32_upper_char q) cs \<Longrightarrow>
   \<exists>d' a'. decode_quanta cs (d, a) = Inr (d', a') \<and> length d' = length d + 5 * length cs
           \<and> (cs \<noteq> [] \<longrightarrow> a' < 32 ^ length (last cs))"
proof (induction cs arbitrary: d a)
  case Nil
  then show ?case by simp
next
  case (Cons q cs)
  then have q: "length q \<le> 8" "list_all b32_upper_char q"
    and cs: "list_all (\<lambda>q. length q \<le> 8 \<and> list_all b32_upper_char q) cs" by simp_all
  from quantum_acc_upper [OF q(2), of 0] obtain v where
    v: "quantum_acc q 0 = Inr v" "v < 32 ^ length q" by auto
  have "(32::nat) ^ length q \<le> 32 ^ 8" using q(1) by (intro power_increasing) simp_all
  then have v40: "v < 2 ^ 40" using v(2) by simp
  then obtain bs where bs: "to_bytes5 v = Inr bs" "length bs = 5"
    by (simp add: to_bytes5_digits)
  from Cons.IH [OF cs, of "d @ bs" v] obtain d' a' where
    r: "decode_quanta cs (d @ bs, v) = Inr (d', a')" "length d' = length (d @ bs) + 5 * length cs"
       "cs \<noteq> [] \<longrightarrow> a' < 32 ^ length (last cs)" by blast
  show ?case
  proof (cases "cs = []")
    case True
    then show ?thesis using v bs by simp
  next
    case False
    then show ?thesis using v(1) bs r by simp
  qed
qed

lemma splitn:
  assumes "0 < n"
  shows "\<exists>qs rest. s = concat qs @ rest \<and> list_all (\<lambda>q. length q = n) qs \<and> length rest < n"
proof (induction s rule: length_induct)
  case (1 s)
  show ?case
  proof (cases "length s < n")
    case True
    then have "s = concat [] @ s \<and> list_all (\<lambda>q. length q = n) [] \<and> length s < n" by simp
    then show ?thesis by blast
  next
    case False
    then have "length (drop n s) < length s" using assms by simp
    with 1 obtain qs rest where
      r: "drop n s = concat qs @ rest" "list_all (\<lambda>q. length q = n) qs" "length rest < n" by blast
    have "s = take n s @ drop n s" by simp
    then have "s = concat (take n s # qs) @ rest" using r(1) by simp
    moreover have "list_all (\<lambda>q. length q = n) (take n s # qs)" using r(2) False by simp
    ultimately show ?thesis using r(3) by blast
  qed
qed

lemma b32decode_key_bytes:
  assumes "length B = 52" "list_all b32_upper_char B"
  shows "\<exists>kb. b32decode (B @ replicate 4 (of_char CHR ''='')) = Inr kb \<and> length kb = 32"
proof -
  define E where "E = B @ replicate 4 (of_char CHR ''='' :: byte)"
  from splitn [of 8 B] obtain qs rest where
    s: "B = concat qs @ rest" "list_all (\<lambda>q. length q = 8) qs" "length rest < 8" by auto
  have "length B = 8 * length qs + length rest"
    unfolding s(1) by (simp add: length_concat_uniform [OF s(2)])
  then have "length B mod 8 = length rest" "length B div 8 = length qs" using s(3) by simp_all
  then have n: "length qs = 6" "length rest = 4" using assms(1) by simp_all
  have rne: "rest \<noteq> []" using n(2) by auto
  have ch: "chunks 8 B = qs @ [rest]"
    unfolding s(1) using chunks_concat [OF s(2), of rest] chunks_short [OF rne, of 8] n(2) by simp
  have "set q \<subseteq> set B" if "q \<in> set qs" for q using that s(1) by auto
  then have "list_all (\<lambda>q. length q \<le> 8 \<and> list_all b32_upper_char q) qs"
    using s(2) assms(2) by (auto simp: list_all_iff)
  moreover have "list_all b32_upper_char rest" using assms(2) s(1) by (auto simp: list_all_iff)
  ultimately have "list_all (\<lambda>q. length q \<le> 8 \<and> list_all b32_upper_char q) (qs @ [rest])"
    using n(2) by simp
  from decode_quanta_upper [OF this, of "[]" 0] obtain d' a' where
    d: "decode_quanta (qs @ [rest]) ([], 0) = Inr (d', a')" "length d' = 35" "a' < 32 ^ 4"
    using n by auto
  have "a' * 2 ^ 20 < 2 ^ 40" using d(3) by simp
  then obtain l5 where l5: "to_bytes5 (a' * 2 ^ 20) = Inr l5" "length l5 = 5"
    by (simp add: to_bytes5_digits)
  have f1: "length E = 56" by (simp add: E_def assms(1))
  have f2: "rstrip (of_char CHR ''='') E = B"
    unfolding E_def by (rule rstrip_padding [OF list_all_no_pad [OF assms(2)]])
  have dne: "d' \<noteq> []" using d(2) by auto
  have f3: "length E - length B = 4" by (simp add: E_def)
  have l5': "to_bytes5 (a' * 1048576) = Inr l5" using l5(1) by simp
  have "b32decode E = Inr (take (length d' - 5) d' @ take 2 l5)"
    unfolding b32decode_def Let_def f2 f3 ch d(1) using dne f1 by (simp add: l5')
  moreover have "length (take (length d' - 5) d' @ take 2 l5) = 32"
    using d(2) l5(2) by simp
  ultimately show ?thesis unfolding E_def by blast
qed

lemma str_upper_ascii:
  "list_all (\<lambda>c. c < 128) s \<Longrightarrow> str_upper uc s = map ascii_upper s"
  by (induction s) (simp_all add: str_upper_def upper_cp_def ascii_upper_def)

lemma key_char_upper:
  assumes "key_char c"
  shows "c < 128" "ascii_upper c \<noteq> 57" "ascii_upper c < 128"
    "b32_upper_char (of_nat (ascii_upper c))"
proof -
  from assms have r: "97 \<le> c \<and> c \<le> 122 \<or> 50 \<le> c \<and> c \<le> 55"
    by (simp add: key_char_def)
  then show "c < 128" "ascii_upper c \<noteq> 57" "ascii_upper c < 128"
    by (auto simp: ascii_upper_def)
  have "ascii_upper c < 256" using r by (auto simp: ascii_upper_def)
  then have "unat (of_nat (ascii_upper c) :: byte) = ascii_upper c" by (rule unat_byte_of_nat)
  then show "b32_upper_char (of_nat (ascii_upper c))"
    using r unfolding b32_upper_char_def by (auto simp: ascii_upper_def)
qed

lemma key_form_split:
  assumes "key_form k"
  shows "k = take 52 k @ lit ''9999''" "length (take 52 k) = 52" "list_all key_char (take 52 k)"
proof -
  show "k = take 52 k @ lit ''9999''"
    using assms append_take_drop_id [of 52 k] unfolding key_form_def by metis
  show "length (take 52 k) = 52" "list_all key_char (take 52 k)"
    using assms by (simp_all add: key_form_def)
qed

lemma from_safe_string_key:
  assumes "key_form k"
  shows "\<exists>kb. from_safe_string uc k = Inr kb \<and> length kb = 32"
proof -
  define body where "body = take 52 k"
  define B :: bytes where "B = map (\<lambda>c. of_nat (ascii_upper c)) body"
  note ks = key_form_split [OF assms, folded body_def]
  have all: "\<forall>c\<in>set body. key_char c" using ks(3) by (simp add: list_all_iff)
  have "list_all (\<lambda>c. c < 128) (body @ lit ''9999'')"
    using all key_char_upper(1) by (auto simp: list_all_iff lit_def)
  then have u: "str_upper uc k = map ascii_upper body @ map ascii_upper (lit ''9999'')"
    using ks(1) str_upper_ascii [of "body @ lit ''9999''" uc] by simp
  have "replace1 57 61 (map ascii_upper body) = map ascii_upper body"
    using all key_char_upper(2) by (auto simp: replace1_def map_idI)
  moreover have "replace1 57 61 (map ascii_upper (lit ''9999'')) = replicate 4 61"
    by (simp add: replace1_def lit_def ascii_upper_def numeral_eq_Suc)
  ultimately have r: "replace1 57 61 (str_upper uc k) = map ascii_upper body @ replicate 4 61"
    by (simp add: u replace1_append)
  have "list_all (\<lambda>c. c < 128) (map ascii_upper body @ replicate 4 61)"
    using all key_char_upper(3) by (auto simp: list_all_iff)
  then have e: "encode_ascii (map ascii_upper body @ replicate 4 61)
       = Inr (B @ replicate 4 61)"
    by (simp add: encode_ascii_def B_def)
  have "length B = 52" "list_all b32_upper_char B"
    using ks(2) all key_char_upper(4) by (auto simp: B_def list_all_iff)
  from b32decode_key_bytes [OF this] have "\<exists>kb. b32decode (B @ replicate 4 61) = Inr kb \<and> length kb = 32"
    by simp
  then show ?thesis
    by (simp add: from_safe_string_def r e)
qed

lemma to_safe_string_key:
  assumes "length b = 32"
  shows "\<exists>k. to_safe_string b = Inr k \<and> key_form k"
proof -
  from split5 [of b] obtain qs rest where
    s: "b = concat qs @ rest" "list_all (\<lambda>q. length q = 5) qs" "length rest < 5" by blast
  have "length b = 5 * length qs + length rest"
    unfolding s(1) by (simp add: length_concat_uniform [OF s(2)])
  then have "length b mod 5 = length rest" "length b div 5 = length qs" using s(3) by simp_all
  then have n: "length qs = 6" "length rest = 2" using assms by simp_all
  have rne: "rest \<noteq> []" using n(2) by auto
  define U where "U = concat (map encode_quantum qs)
      @ take 4 (encode_quantum (rest @ replicate (5 - length rest) 0))"
  have enc: "b32encode b = U @ replicate 4 (of_char CHR ''='')"
    unfolding s(1) b32encode_partial [OF s(2) rne s(3)] U_def
    by (simp add: n(2) pad_chars_def)
  have "list_all b32_upper_char (encode_quantum (rest @ replicate (5 - length rest) 0))"
    by (rule encode_quantum_chars) (use s(3) in simp)
  then have "list_all b32_upper_char (take 4 (encode_quantum (rest @ replicate (5 - length rest) 0)))"
    by (auto simp: list_all_iff dest: in_set_takeD)
  then have Uc: "list_all b32_upper_char U"
    using encode_quanta_chars [OF s(2)] by (simp add: U_def)
  have Ul: "length U = 52"
    by (simp add: U_def length_encode_quanta n(1) length_encode_quantum)
  define body where "body = map (\<lambda>x. lower_cp (unat x)) U"
  have "replace1 61 57 (map unat U) = map unat U"
    using Uc by (auto simp: replace1_def list_all_iff b32_upper_char_def intro!: map_idI)
  then have "str_lower (replace1 61 57 (map unat (U @ replicate 4 61))) = body @ replicate 4 57"
    by (simp add: replace1_append str_lower_def body_def comp_def)
       (simp add: replace1_def lower_cp_def)
  then have k: "to_safe_string b = Inr (body @ replicate 4 57)"
    by (simp add: to_safe_string_eq enc)
  have "list_all key_char body"
    using Uc by (auto simp: body_def list_all_iff b32_upper_char_def key_char_def lower_cp_def)
  moreover have "length body = 52" by (simp add: body_def Ul)
  ultimately have "key_form (body @ replicate 4 57)"
    by (simp add: key_form_def lit_def numeral_eq_Suc)
  with k show ?thesis by blast
qed


section \<open>The protocol: encrypting and decrypting\<close>

lemma xor_twice: "(a XOR b) XOR b = a" for a b :: byte
  by (simp add: xor.assoc)

lemma xor_cancel_iff: "((a XOR b) XOR c = a) = (b = c)" for a b c :: byte
proof
  assume h: "(a XOR b) XOR c = a"
  have "b XOR c = a XOR ((a XOR b) XOR c)" by (simp add: xor.assoc [symmetric])
  also have "\<dots> = 0" by (simp only: h xor_self_eq)
  finally have "(b XOR c) XOR c = 0 XOR c" by simp
  then show "b = c" by (simp only: xor_twice xor.left_neutral)
next
  assume "b = c"
  then show "(a XOR b) XOR c = a" by (simp add: xor_twice)
qed

lemma length_ctr_encrypt: "length (ctr_encrypt st d) = length d"
  by (simp add: ctr_encrypt_def)

lemma nth_ctr_encrypt: "i < length d \<Longrightarrow> ctr_encrypt st d ! i = d ! i XOR st i"
  by (simp add: ctr_encrypt_def)

lemma ctr_decrypt_encrypt: "ctr_decrypt st (ctr_encrypt st d) = d"
  by (rule nth_equalityI)
     (simp_all add: ctr_decrypt_def length_ctr_encrypt nth_ctr_encrypt xor_twice)

lemma length_PLAINTEXT_PADDING: "length PLAINTEXT_PADDING = 16"
  by (simp add: PLAINTEXT_PADDING_def)

lemma sentinel_nth:
  assumes "i < 16"
  shows "ctr_decrypt s2 (ctr_encrypt s1 (PLAINTEXT_PADDING @ x)) ! i
         = (PLAINTEXT_PADDING ! i XOR s1 i) XOR s2 i"
proof -
  have i: "i < length (PLAINTEXT_PADDING @ x)" using assms by (simp add: length_PLAINTEXT_PADDING)
  then have i': "i < length (ctr_encrypt s1 (PLAINTEXT_PADDING @ x))"
    by (simp only: length_ctr_encrypt)
  have "ctr_decrypt s2 (ctr_encrypt s1 (PLAINTEXT_PADDING @ x)) ! i
        = ctr_encrypt s1 (PLAINTEXT_PADDING @ x) ! i XOR s2 i"
    unfolding ctr_decrypt_def by (rule nth_ctr_encrypt [OF i'])
  also have "ctr_encrypt s1 (PLAINTEXT_PADDING @ x) ! i = (PLAINTEXT_PADDING @ x) ! i XOR s1 i"
    by (rule nth_ctr_encrypt [OF i])
  also have "(PLAINTEXT_PADDING @ x) ! i = PLAINTEXT_PADDING ! i"
    using assms by (simp add: nth_append length_PLAINTEXT_PADDING)
  finally show ?thesis .
qed

lemma startswith_nth:
  "length p \<le> length c \<Longrightarrow> startswith c p = (\<forall>i<length p. c ! i = p ! i)"
  unfolding startswith_def by (subst list_eq_iff_nth_eq) auto

lemma sentinel_check:
  "startswith (ctr_decrypt s2 (ctr_encrypt s1 (PLAINTEXT_PADDING @ x))) PLAINTEXT_PADDING
   = (\<forall>i<16. s1 i = s2 i)"
proof -
  define c where "c = ctr_decrypt s2 (ctr_encrypt s1 (PLAINTEXT_PADDING @ x))"
  have l: "length PLAINTEXT_PADDING \<le> length c"
    by (simp add: c_def ctr_decrypt_def length_ctr_encrypt)
  have n: "(c ! i = PLAINTEXT_PADDING ! i) = (s1 i = s2 i)" if "i < 16" for i
    unfolding c_def sentinel_nth [OF that] by (rule xor_cancel_iff)
  have "startswith c PLAINTEXT_PADDING = (\<forall>i<16. c ! i = PLAINTEXT_PADDING ! i)"
    using startswith_nth [OF l] by (simp only: length_PLAINTEXT_PADDING)
  also have "\<dots> = (\<forall>i<16. s1 i = s2 i)"
    using n by blast
  finally show ?thesis unfolding c_def .
qed

lemma startswith_append: "startswith (p @ xs) p"
  by (simp add: startswith_def)

lemma crypt_general:
  assumes "key_form k1" "key_form k2" "encode_and_pad s n = Inr padded"
  shows "\<exists>kb1 kb2 c. from_safe_string uc k1 = Inr kb1 \<and> from_safe_string uc k2 = Inr kb2
           \<and> encrypt uc ks s k1 n = Inr c \<and> is_encrypted c
           \<and> decrypt uc ks c k2 =
               (if \<forall>i<16. ks kb1 i = ks kb2 i
                then un_pad_and_decode (drop 16 (ctr_decrypt (ks kb2)
                       (ctr_encrypt (ks kb1) (PLAINTEXT_PADDING @ padded))))
                else Inl InvalidKeyException)"
proof -
  from from_safe_string_key [OF assms(1), of uc] obtain kb1 where
    k1: "from_safe_string uc k1 = Inr kb1" "length kb1 = 32" by blast
  from from_safe_string_key [OF assms(2), of uc] obtain kb2 where
    k2: "from_safe_string uc k2 = Inr kb2" "length kb2 = 32" by blast
  define cipher where "cipher = ctr_encrypt (ks kb1) (PLAINTEXT_PADDING @ padded)"
  define t where "t = str_lower (replace1 61 57 (map unat (b32encode cipher)))"
  have t: "to_safe_string cipher = Inr t" by (simp add: t_def to_safe_string_eq)
  have ft: "from_safe_string uc t = Inr cipher"
    by (rule from_safe_string_to_safe_string [OF t])
  have a1: "aes_mode_of_operation uc ks k1 = Inr (ks kb1)"
    by (simp add: aes_mode_of_operation_def k1 AESModeOfOperationCTR_def)
  have a2: "aes_mode_of_operation uc ks k2 = Inr (ks kb2)"
    by (simp add: aes_mode_of_operation_def k2 AESModeOfOperationCTR_def)
  have e: "encrypt uc ks s k1 n = Inr (HEADER_TEXT @ t)"
    by (simp add: encrypt_def assms(3) a1 Let_def cipher_def [symmetric] t)
  have ie: "is_encrypted (HEADER_TEXT @ t)"
    by (simp add: is_encrypted_def startswith_append)
  have d: "decrypt uc ks (HEADER_TEXT @ t) k2 =
       (if \<forall>i<16. ks kb1 i = ks kb2 i
        then un_pad_and_decode (drop 16 (ctr_decrypt (ks kb2) cipher))
        else Inl InvalidKeyException)"
    using sentinel_check [of "ks kb2" "ks kb1" padded]
    by (auto simp: decrypt_def startswith_append ft a2 Let_def cipher_def [symmetric]
        length_PLAINTEXT_PADDING)
  show ?thesis
    using k1(1) k2(1) e ie d unfolding cipher_def by blast
qed

lemma decrypt_encrypt_same_key:
  assumes "key_form k" "utf8_encode s = Inr bs" "n = None \<or> n = Some m \<and> int (length bs) \<le> m"
  shows "\<exists>c. encrypt uc ks s k n = Inr c \<and> is_encrypted c
             \<and> decrypt uc ks c k = Inr (rstrip 0 s)"
proof -
  obtain z where p: "encode_and_pad s n = Inr (bs @ replicate z 0)"
    using assms(2,3) replicate_0 [of "0 :: byte"]
    by (auto simp: encode_and_pad_def simp del: replicate_0)
  from crypt_general [OF assms(1) assms(1) p, of uc ks] obtain kb c where
    r: "encrypt uc ks s k n = Inr c" "is_encrypted c"
       "decrypt uc ks c k = un_pad_and_decode (drop 16 (ctr_decrypt (ks kb)
                       (ctr_encrypt (ks kb) (PLAINTEXT_PADDING @ bs @ replicate z 0))))"
    by auto
  have "decrypt uc ks c k = Inr (rstrip 0 s)"
    unfolding r(3) ctr_decrypt_encrypt
    by (simp add: length_PLAINTEXT_PADDING un_pad_and_decode_padded [OF assms(2)])
  with r show ?thesis by blast
qed


section \<open>The claims about the protocol\<close>

lemma rstrip_decomp:
  "\<exists>j. s = rstrip c s @ replicate j c \<and> (rstrip c s = [] \<or> last (rstrip c s) \<noteq> c)"
proof (induction s rule: rev_induct)
  case Nil
  then show ?case by (simp add: rstrip_def)
next
  case (snoc x xs)
  show ?case
  proof (cases "x = c")
    case True
    from snoc obtain j where
      j: "xs = rstrip c xs @ replicate j c" "rstrip c xs = [] \<or> last (rstrip c xs) \<noteq> c" by blast
    have "xs @ [c] = rstrip c xs @ replicate (Suc j) c"
      using j(1) by (simp add: replicate_append_same [symmetric])
    then show ?thesis using j(2) True by (metis rstrip_snoc_same)
  next
    case False
    then have "rstrip c (xs @ [x]) = xs @ [x]" by (simp add: rstrip_def)
    then have "xs @ [x] = rstrip c (xs @ [x]) @ replicate 0 c \<and> last (rstrip c (xs @ [x])) \<noteq> c"
      using False by simp
    then show ?thesis by blast
  qed
qed

lemma utf8_decode_error: "utf8_decode bs = Inl e \<Longrightarrow> e = UnicodeDecodeError"
proof (induction bs rule: utf8_decode.induct)
  case (1 bs)
  show ?case
  proof (cases "bs = []")
    case True
    then show ?thesis using "1.prems" by (simp add: utf8_decode.simps)
  next
    case False
    show ?thesis
    proof (cases "utf8_decode_one bs")
      case None
      then show ?thesis using "1.prems" False by (simp add: utf8_decode.simps)
    next
      case (Some a)
      obtain c rest where a: "a = (c, rest)" by (cases a)
      show ?thesis
        using "1.prems" "1.IH" [OF False Some [unfolded a]] False Some a
        by (subst (asm) utf8_decode.simps) (auto split: sum.splits)
    qed
  qed
qed

lemma startswith_iff: "startswith t p = (\<exists>r. t = p @ r)"
proof
  assume "startswith t p"
  then have "t = p @ drop (length p) t"
    unfolding startswith_def by (metis append_take_drop_id)
  then show "\<exists>r. t = p @ r" ..
next
  assume "\<exists>r. t = p @ r"
  then show "startswith t p" by (auto simp: startswith_def)
qed

lemma encrypt_is_encrypted: "encrypt uc ks s k n = Inr c \<Longrightarrow> is_encrypted c"
  by (auto simp: encrypt_def Let_def is_encrypted_def startswith_append split: sum.splits)

lemma sample_key_bytes: "from_safe_string sample_upper sample_key = Inr (replicate 32 0)"
  by code_simp

lemma sample_key2_bytes: "from_safe_string sample_upper sample_key2 = Inr (replicate 32 0)"
  by code_simp

lemma sample_keys_form: "key_form sample_key" "key_form sample_key2" "sample_key \<noteq> sample_key2"
  by code_simp+

lemma hello_utf8: "utf8_encode (lit ''hello'') = Inr (blit ''hello'')"
  by code_simp

text \<open>
  C1: for every key \<open>k\<close> of valid form and every string \<open>s\<close> that has a UTF-8 encoding
  and no trailing NUL character, \<^verbatim>\<open>encrypt(s, k)\<close> returns and \<^verbatim>\<open>decrypt\<close> of its result
  under \<open>k\<close> is \<open>s\<close>; with a pad length \<open>n\<close>, the same holds whenever the encoding of \<open>s\<close>
  is at most \<open>n\<close> bytes long.
\<close>

theorem decrypt_encrypt_roundtrip:
  assumes "key_form k" "utf8_encode s = Inr bs" "s = [] \<or> last s \<noteq> 0"
  shows "(\<exists>c. encrypt uc ks s k None = Inr c \<and> decrypt uc ks c k = Inr s)
       \<and> (int (length bs) \<le> n \<longrightarrow>
            (\<exists>c. encrypt uc ks s k (Some n) = Inr c \<and> decrypt uc ks c k = Inr s))"
proof -
  have r: "rstrip 0 s = s" by (rule rstrip_no_trailing [OF assms(3)])
  show ?thesis
    using decrypt_encrypt_same_key [OF assms(1,2), of None n uc ks]
      decrypt_encrypt_same_key [OF assms(1,2), of "Some n" n uc ks]
    by (auto simp: r)
qed

theorem decrypt_encrypt_roundtrip_witness:
  "key_form sample_key \<and> utf8_encode (lit ''hello'') = Inr (blit ''hello'')
   \<and> (\<exists>c. encrypt sample_upper sample_keystream (lit ''hello'') sample_key None = Inr c
          \<and> decrypt sample_upper sample_keystream c sample_key = Inr (lit ''hello''))
   \<and> (\<exists>c. encrypt sample_upper sample_keystream (lit ''hello'') sample_key (Some 8) = Inr c
          \<and> decrypt sample_upper sample_keystream c sample_key = Inr (lit ''hello''))"
proof -
  have l: "lit ''hello'' = [] \<or> last (lit ''hello'') \<noteq> 0" by (simp add: lit_def)
  have b: "int (length (blit ''hello'')) \<le> 8" by (simp add: blit_def)
  show ?thesis
    using decrypt_encrypt_roundtrip [OF sample_keys_form(1) hello_utf8 l, of sample_upper
        sample_keystream 8] sample_keys_form(1) hello_utf8 b
    by simp
qed

text \<open>
  C8: for every key \<open>k\<close> of valid form and every string \<open>s\<close> that has a UTF-8 encoding,
  also one that ends in NUL characters, \<^verbatim>\<open>decrypt(encrypt(s, k), k)\<close> is \<open>s\<close> without its
  trailing NUL characters: \<^verbatim>\<open>un_pad_and_decode\<close> strips every trailing NUL byte, those of
  the text as well as those of the padding. What is left of \<open>s\<close> does not end in NUL, and
  \<open>s\<close> is it followed by NULs only.
\<close>

theorem trailing_nul_stripped:
  assumes "key_form k" "utf8_encode s = Inr bs"
  shows "(\<exists>c. encrypt uc ks s k None = Inr c \<and> decrypt uc ks c k = Inr (rstrip 0 s))
       \<and> un_pad_and_decode (bs @ replicate z 0) = Inr (rstrip 0 s)
       \<and> (\<exists>j. s = rstrip 0 s @ replicate j 0 \<and> (rstrip 0 s = [] \<or> last (rstrip 0 s) \<noteq> 0))"
  using decrypt_encrypt_same_key [OF assms, of None 0 uc ks]
    un_pad_and_decode_padded [OF assms(2), of z] rstrip_decomp [of s 0]
  by auto

theorem trailing_nul_stripped_witness:
  "key_form sample_key \<and> utf8_encode [104, 105, 0, 0] = Inr [104, 105, 0, 0]
   \<and> rstrip 0 [104, 105, 0, 0 :: nat] = [104, 105]
   \<and> (\<exists>c. encrypt sample_upper sample_keystream [104, 105, 0, 0] sample_key None = Inr c
          \<and> decrypt sample_upper sample_keystream c sample_key = Inr [104, 105])
   \<and> un_pad_and_decode ([104, 105, 0, 0] @ replicate 3 0) = Inr [104, 105]"
proof -
  have u: "utf8_encode [104, 105, 0, 0] = Inr [104, 105, 0, 0]" by code_simp
  have r: "rstrip 0 [104, 105, 0, 0 :: nat] = [104, 105]" by (simp add: rstrip_def)
  show ?thesis
    using trailing_nul_stripped [OF sample_keys_form(1) u, of sample_upper sample_keystream 3]
      sample_keys_form(1) u
    by (simp add: r)
qed

text \<open>
  C7: \<^verbatim>\<open>is_encrypted(t)\<close> is true if and only if \<open>t\<close> starts with the header, the text
  \<^verbatim>\<open>OKPY ENCRYPTED FILE FOLLOWS\<close>, a newline, 100 characters \<^verbatim>\<open>-\<close> and a newline; the
  result of \<^verbatim>\<open>encrypt\<close> always starts with it, and \<^verbatim>\<open>encrypt(s, k)\<close> has a result for
  every key of valid form and every string that has a UTF-8 encoding.
\<close>

theorem is_encrypted_header:
  "(is_encrypted t =
      (\<exists>r. t = (lit ''OKPY ENCRYPTED FILE FOLLOWS'' @ [10]) @ replicate 100 (of_char CHR ''-'')
                 @ [10] @ r))
   \<and> (key_form k \<and> utf8_encode s = Inr bs \<longrightarrow>
        (\<exists>c. encrypt uc ks s k None = Inr c \<and> is_encrypted c))
   \<and> (encrypt uc ks s k n = Inr c' \<longrightarrow> is_encrypted c')"
proof (intro conjI impI)
  show "is_encrypted t =
      (\<exists>r. t = (lit ''OKPY ENCRYPTED FILE FOLLOWS'' @ [10]) @ replicate 100 (of_char CHR ''-'')
                 @ [10] @ r)"
    unfolding is_encrypted_def startswith_iff HEADER_TEXT_def by simp
  show "\<exists>c. encrypt uc ks s k None = Inr c \<and> is_encrypted c"
    if "key_form k \<and> utf8_encode s = Inr bs"
    using decrypt_encrypt_same_key [of k s bs None 0 uc ks] that by blast
  show "is_encrypted c'" if "encrypt uc ks s k n = Inr c'"
    using that by (rule encrypt_is_encrypted)
qed

theorem is_encrypted_header_witness:
  "key_form sample_key \<and> utf8_encode (lit ''hello'') = Inr (blit ''hello'')
   \<and> (\<exists>c. encrypt sample_upper sample_keystream (lit ''hello'') sample_key None = Inr c
          \<and> is_encrypted c)
   \<and> \<not> is_encrypted (lit ''hello'')
   \<and> is_encrypted (HEADER_TEXT @ lit ''hello'')"
proof -
  have n: "\<not> is_encrypted (lit ''hello'')" by (simp add: is_encrypted_def startswith_def HEADER_TEXT_def lit_def)
  have y: "is_encrypted (HEADER_TEXT @ lit ''hello'')" by (simp add: is_encrypted_def startswith_append)
  show ?thesis
    using is_encrypted_header [of "lit ''hello''" sample_key "lit ''hello''" "blit ''hello''"
        sample_upper sample_keystream None "[]"] sample_keys_form(1) hello_utf8 n y
    by blast
qed

text \<open>
  C6: for every sequence \<open>b\<close> of 32 bytes, \<^verbatim>\<open>to_safe_string(b)\<close> is 52 characters from
  \<^verbatim>\<open>[a-z2-7]\<close> followed by \<^verbatim>\<open>9999\<close>, and \<^verbatim>\<open>is_valid_key\<close> accepts it; so
  \<^verbatim>\<open>is_valid_key(generate_key())\<close> is true whatever 32 bytes the random source returns.
\<close>

theorem generated_keys_valid:
  "(length b = 32 \<longrightarrow> (\<exists>k. to_safe_string b = Inr k \<and> key_form k \<and> is_valid_key k))
   \<and> (length (urandom 32) = 32 \<longrightarrow> (\<exists>k. generate_key urandom = Inr k \<and> is_valid_key k))"
  using to_safe_string_key [of b] to_safe_string_key [of "urandom 32"]
  by (auto simp: generate_key_def is_valid_key_iff)

theorem generated_keys_valid_witness:
  "length (replicate 32 (0 :: byte)) = 32
   \<and> (\<exists>k. to_safe_string (replicate 32 0) = Inr k \<and> key_form k \<and> is_valid_key k)
   \<and> (\<exists>k. generate_key (\<lambda>n. replicate n 0) = Inr k \<and> is_valid_key k)"
  using generated_keys_valid [of "replicate 32 0" "\<lambda>n. replicate n 0"] by simp

lemma decrypt_guard:
  assumes "startswith c HEADER_TEXT"
    "from_safe_string uc (drop (length HEADER_TEXT) c) = Inr cb"
    "aes_mode_of_operation uc ks k = Inr st"
    "\<not> startswith (ctr_decrypt st cb) PLAINTEXT_PADDING"
  shows "decrypt uc ks c k = Inl InvalidKeyException"
  using assms by (simp add: decrypt_def Let_def)

lemma un_pad_and_decode_error: "un_pad_and_decode p \<noteq> Inl InvalidKeyException"
  using utf8_decode_error [of "rstrip 0 p" InvalidKeyException]
  by (auto simp: un_pad_and_decode_def)

text \<open>
  C3, as the code has it: for keys \<open>k1\<close> and \<open>k2\<close> of valid form and a string \<open>s\<close> that
  has a UTF-8 encoding, \<^verbatim>\<open>decrypt(encrypt(s, k1), k2)\<close> fails with \<^verbatim>\<open>InvalidKeyException\<close>
  if and only if the key streams of the bytes the two keys decode to differ within their
  first 16 bytes. And \<^verbatim>\<open>decrypt\<close> fails with \<^verbatim>\<open>InvalidKeyException\<close> whenever the text has
  the header, its body and the key decode, and the first 16 decrypted bytes are not the
  sentinel.
\<close>

theorem wrong_key_detection:
  assumes "key_form k1" "key_form k2" "utf8_encode s = Inr bs"
  shows "(\<exists>kb1 kb2 c. from_safe_string uc k1 = Inr kb1 \<and> from_safe_string uc k2 = Inr kb2
            \<and> encrypt uc ks s k1 None = Inr c
            \<and> (decrypt uc ks c k2 = Inl InvalidKeyException) = (\<exists>i<16. ks kb1 i \<noteq> ks kb2 i))
       \<and> (startswith c' HEADER_TEXT
            \<and> from_safe_string uc (drop (length HEADER_TEXT) c') = Inr cb
            \<and> aes_mode_of_operation uc ks k = Inr st
            \<and> \<not> startswith (ctr_decrypt st cb) PLAINTEXT_PADDING
          \<longrightarrow> decrypt uc ks c' k = Inl InvalidKeyException)"
proof (intro conjI impI)
  have p: "encode_and_pad s None = Inr bs" using assms(3) by (simp add: encode_and_pad_def)
  from crypt_general [OF assms(1,2) p, of uc ks] obtain kb1 kb2 c where
    r: "from_safe_string uc k1 = Inr kb1" "from_safe_string uc k2 = Inr kb2"
       "encrypt uc ks s k1 None = Inr c"
       "decrypt uc ks c k2 =
         (if \<forall>i<16. ks kb1 i = ks kb2 i
          then un_pad_and_decode (drop 16 (ctr_decrypt (ks kb2)
                 (ctr_encrypt (ks kb1) (PLAINTEXT_PADDING @ bs))))
          else Inl InvalidKeyException)"
    by blast
  have "(decrypt uc ks c k2 = Inl InvalidKeyException) = (\<exists>i<16. ks kb1 i \<noteq> ks kb2 i)"
    unfolding r(4) using un_pad_and_decode_error by auto
  with r(1-3) show "\<exists>kb1 kb2 c. from_safe_string uc k1 = Inr kb1 \<and> from_safe_string uc k2 = Inr kb2
            \<and> encrypt uc ks s k1 None = Inr c
            \<and> (decrypt uc ks c k2 = Inl InvalidKeyException) = (\<exists>i<16. ks kb1 i \<noteq> ks kb2 i)"
    by blast
  show "decrypt uc ks c' k = Inl InvalidKeyException"
    if "startswith c' HEADER_TEXT
        \<and> from_safe_string uc (drop (length HEADER_TEXT) c') = Inr cb
        \<and> aes_mode_of_operation uc ks k = Inr st
        \<and> \<not> startswith (ctr_decrypt st cb) PLAINTEXT_PADDING"
    using that decrypt_guard by blast
qed

theorem wrong_key_detection_witness:
  "key_form sample_key \<and> key_form sample_key2 \<and> utf8_encode (lit ''hello'') = Inr (blit ''hello'')
   \<and> (\<exists>c. encrypt sample_upper sample_keystream (lit ''hello'') sample_key None = Inr c
          \<and> decrypt sample_upper sample_keystream c sample_key2 \<noteq> Inl InvalidKeyException)"
proof -
  from wrong_key_detection [OF sample_keys_form(1,2) hello_utf8, of sample_upper sample_keystream]
  obtain kb1 kb2 c where
    r: "from_safe_string sample_upper sample_key = Inr kb1"
       "from_safe_string sample_upper sample_key2 = Inr kb2"
       "encrypt sample_upper sample_keystream (lit ''hello'') sample_key None = Inr c"
       "(decrypt sample_upper sample_keystream c sample_key2 = Inl InvalidKeyException)
        = (\<exists>i<16. sample_keystream kb1 i \<noteq> sample_keystream kb2 i)"
    by blast
  have "kb1 = kb2" using r(1,2) by (simp add: sample_key_bytes sample_key2_bytes)
  then have "decrypt sample_upper sample_keystream c sample_key2 \<noteq> Inl InvalidKeyException"
    using r(4) by simp
  then show ?thesis using r(3) sample_keys_form(1,2) hello_utf8 by blast
qed

text \<open>
  Two different keys of valid form can decode to the same 32 bytes: the 52 characters
  hold 260 bits, and the decoder drops the last four. The two sample keys differ in
  the last of these bits only, so each decrypts what the other encrypted, under every
  cipher.
\<close>

theorem wrong_key_undetected:
  "key_form sample_key \<and> key_form sample_key2 \<and> sample_key \<noteq> sample_key2
   \<and> \<not> isl (encrypt sample_upper sample_keystream (lit ''hello'') sample_key None)
   \<and> decrypt sample_upper sample_keystream
        (projr (encrypt sample_upper sample_keystream (lit ''hello'') sample_key None)) sample_key2
       = Inr (lit ''hello'')"
proof -
  have p: "encode_and_pad (lit ''hello'') None = Inr (blit ''hello'')"
    by (simp add: encode_and_pad_def hello_utf8)
  from crypt_general [OF sample_keys_form(1,2) p, of sample_upper sample_keystream]
  obtain kb1 kb2 c where
    r: "from_safe_string sample_upper sample_key = Inr kb1"
       "from_safe_string sample_upper sample_key2 = Inr kb2"
       "encrypt sample_upper sample_keystream (lit ''hello'') sample_key None = Inr c"
       "decrypt sample_upper sample_keystream c sample_key2 =
         (if \<forall>i<16. sample_keystream kb1 i = sample_keystream kb2 i
          then un_pad_and_decode (drop 16 (ctr_decrypt (sample_keystream kb2)
                 (ctr_encrypt (sample_keystream kb1) (PLAINTEXT_PADDING @ blit ''hello''))))
          else Inl InvalidKeyException)"
    by blast
  have k: "kb1 = kb2" using r(1,2) by (simp add: sample_key_bytes sample_key2_bytes)
  have "rstrip 0 (lit ''hello'') = lit ''hello''"
    by (rule rstrip_no_trailing) (simp add: lit_def)
  then have "un_pad_and_decode (blit ''hello'') = Inr (lit ''hello'')"
    using un_pad_and_decode_padded [OF hello_utf8, of 0] by simp
  then have "decrypt sample_upper sample_keystream c sample_key2 = Inr (lit ''hello'')"
    unfolding r(4) k ctr_decrypt_encrypt by (simp add: length_PLAINTEXT_PADDING)
  then show ?thesis using r(3) sample_keys_form by simp
qed


section \<open>Scanning a document for keys\<close>

lemma re_match_at_key:
  "i \<le> length s \<Longrightarrow> re_match_at KEY_PATTERN s i = (if key_at s i then Some (i + 56) else None)"
  using re_match_at_KEY_PATTERN [of i s "[]"] by simp

lemma re_findall_from_positions:
  "re_findall_from KEY_PATTERN s i = map (\<lambda>j. take 56 (drop j s)) (key_positions_from s i)"
proof (induction s i rule: key_positions_from.induct)
  case (1 s i)
  show ?case
  proof (cases "length s < i")
    case True
    then show ?thesis by (simp add: re_findall_from.simps key_positions_from.simps)
  next
    case False
    then have le: "i \<le> length s" by simp
    show ?thesis
    proof (cases "key_at s i")
      case True
      have "re_findall_from KEY_PATTERN s i
            = take 56 (drop i s) # re_findall_from KEY_PATTERN s (i + 56)"
        using False True by (subst re_findall_from.simps) (simp add: re_match_at_key [OF le] max_def)
      moreover have "key_positions_from s i = i # key_positions_from s (i + 56)"
        using False True by (subst key_positions_from.simps) simp
      ultimately show ?thesis using "1.IH"(1) [OF False True] by simp
    next
      case nk: False
      have "re_findall_from KEY_PATTERN s i = re_findall_from KEY_PATTERN s (i + 1)"
        using False nk by (subst re_findall_from.simps) (simp add: re_match_at_key [OF le])
      moreover have "key_positions_from s i = key_positions_from s (i + 1)"
        using False nk by (subst key_positions_from.simps) simp
      ultimately show ?thesis using "1.IH"(2) [OF False nk] by simp
    qed
  qed
qed

lemma key_positions_sound:
  "j \<in> set (key_positions_from s i) \<Longrightarrow> i \<le> j \<and> key_at s j"
proof (induction s i rule: key_positions_from.induct)
  case (1 s i)
  show ?case
  proof (cases "length s < i")
    case True
    then show ?thesis using "1.prems" by (simp add: key_positions_from.simps)
  next
    case False
    show ?thesis
    proof (cases "key_at s i")
      case True
      then have "key_positions_from s i = i # key_positions_from s (i + 56)"
        using False by (subst key_positions_from.simps) simp
      then show ?thesis using "1.prems" "1.IH"(1) [OF False True] True by auto
    next
      case nk: False
      then have "key_positions_from s i = key_positions_from s (i + 1)"
        using False by (subst key_positions_from.simps) simp
      then show ?thesis using "1.prems" "1.IH"(2) [OF False nk] by auto
    qed
  qed
qed

lemma key_positions_apart:
  "sorted_wrt (\<lambda>a b. a + 56 \<le> b) (key_positions_from s i)"
proof (induction s i rule: key_positions_from.induct)
  case (1 s i)
  show ?case
  proof (cases "length s < i")
    case True
    then show ?thesis by (simp add: key_positions_from.simps)
  next
    case False
    show ?thesis
    proof (cases "key_at s i")
      case True
      then have "key_positions_from s i = i # key_positions_from s (i + 56)"
        using False by (subst key_positions_from.simps) simp
      then show ?thesis
        using "1.IH"(1) [OF False True] key_positions_sound [of _ s "i + 56"] by auto
    next
      case nk: False
      then have "key_positions_from s i = key_positions_from s (i + 1)"
        using False by (subst key_positions_from.simps) simp
      then show ?thesis using "1.IH"(2) [OF False nk] by simp
    qed
  qed
qed

lemma key_at_bound: "key_at s j \<Longrightarrow> j \<le> length s"
  by (simp add: key_at_def)

lemma key_positions_complete:
  "i \<le> j \<Longrightarrow> key_at s j \<Longrightarrow> \<exists>a\<in>set (key_positions_from s i). a \<le> j \<and> j < a + 56"
proof (induction s i rule: key_positions_from.induct)
  case (1 s i)
  have False: "\<not> length s < i" using "1.prems" key_at_bound [of s j] by simp
  show ?case
  proof (cases "key_at s i")
    case True
    then have e: "key_positions_from s i = i # key_positions_from s (i + 56)"
      using False by (subst key_positions_from.simps) simp
    show ?thesis
    proof (cases "j < i + 56")
      case True
      then show ?thesis using e "1.prems"(1) by simp
    next
      case far: False
      then have "i + 56 \<le> j" by simp
      from "1.IH"(1) [OF False True this "1.prems"(2)] show ?thesis using e by auto
    qed
  next
    case nk: False
    then have e: "key_positions_from s i = key_positions_from s (i + 1)"
      using False by (subst key_positions_from.simps) simp
    have "i \<noteq> j" using nk "1.prems"(2) by auto
    then have "i + 1 \<le> j" using "1.prems"(1) by simp
    from "1.IH"(2) [OF False nk this "1.prems"(2)] show ?thesis using e by simp
  qed
qed

lemma key_positions_skip:
  "(\<forall>j. i \<le> j \<and> j < i + d \<longrightarrow> \<not> key_at s j) \<Longrightarrow>
   key_positions_from s (i + d) = [] \<or> i + d \<le> length s + 1 \<Longrightarrow>
   key_positions_from s i = key_positions_from s (i + d)"
proof (induction d arbitrary: i)
  case 0
  then show ?case by simp
next
  case (Suc d)
  show ?case
  proof (cases "length s < i")
    case True
    then have "key_positions_from s i = []" "key_positions_from s (i + Suc d) = []"
      by (simp_all add: key_positions_from.simps)
    then show ?thesis by simp
  next
    case False
    have nk: "\<not> key_at s i" using Suc.prems(1) by simp
    have "key_positions_from s i = key_positions_from s (Suc i)"
      using False nk by (subst key_positions_from.simps) simp
    moreover have "key_positions_from s (Suc i) = key_positions_from s (Suc i + d)"
      by (rule Suc.IH) (use Suc.prems in auto)
    ultimately show ?thesis by simp
  qed
qed

lemma key_char_space: "\<not> key_char 32"
  by (simp add: key_char_def)

lemma get_keys_embedded:
  assumes "key_form k"
  shows "get_keys (lit ''prefix '' @ k @ lit '' suffix'') = [k]"
proof -
  define doc where "doc = lit ''prefix '' @ k @ lit '' suffix''"
  have lk: "length k = 56" using assms by (simp add: key_form_def)
  have ld: "length doc = 70" by (simp add: doc_def lk lit_def)
  have sp: "doc ! 6 = 32" by (simp add: doc_def lit_def)
  have before: "\<not> key_at doc j" if "j < 7" for j
  proof
    assume "key_at doc j"
    then have kf: "key_form (take 56 (drop j doc))" by (simp add: key_at_def)
    then have "list_all key_char (take 52 (take 56 (drop j doc)))" by (simp add: key_form_def)
    then have "\<forall>n < 52. key_char (take 52 (take 56 (drop j doc)) ! n)"
      using ld that by (simp add: list_all_length)
    then have "key_char (take 52 (take 56 (drop j doc)) ! (6 - j))" using that by simp
    then have "key_char (doc ! 6)" using that ld by simp
    then show False using sp key_char_space by simp
  qed
  have at7: "key_at doc 7" "take 56 (drop 7 doc) = k"
    using assms by (simp_all add: key_at_def doc_def lk lit_def)
  have after: "\<not> key_at doc j" if "63 \<le> j" for j
    using that ld by (simp add: key_at_def)
  have "key_positions_from doc 0 = key_positions_from doc (0 + 7)"
    by (rule key_positions_skip) (use before ld in auto)
  also have "\<dots> = 7 # key_positions_from doc 63"
    using at7(1) ld by (subst key_positions_from.simps) simp
  also have "key_positions_from doc 63 = key_positions_from doc (63 + 8)"
    by (rule key_positions_skip) (use after ld in auto)
  also have "\<dots> = []" using ld by (simp add: key_positions_from.simps)
  finally have "key_positions_from doc 0 = [7]" .
  then show ?thesis
    unfolding doc_def [symmetric] get_keys_def re_findall_def re_findall_from_positions
    by (simp add: at7(2))
qed

text \<open>
  C9: \<^verbatim>\<open>get_keys(document)\<close> returns the non-overlapping substrings of the document that
  match the key pattern, in order of appearance: the results are the 56-character
  substrings at increasing positions at least 56 apart, each of the form of a key, and
  every place where the document has a key lies inside one of them. In particular
  \<^verbatim>\<open>get_keys("prefix " + k + " suffix")\<close> is the one-element list of \<open>k\<close>, for every
  key \<open>k\<close> of valid form and so for the encoding of every 32 bytes.
\<close>

theorem get_keys_scan:
  "(\<exists>ps. get_keys document = map (\<lambda>j. take 56 (drop j document)) ps
         \<and> sorted_wrt (\<lambda>a b. a + 56 \<le> b) ps
         \<and> (\<forall>j\<in>set ps. key_at document j)
         \<and> (\<forall>j. key_at document j \<longrightarrow> (\<exists>a\<in>set ps. a \<le> j \<and> j < a + 56)))
   \<and> (key_form k \<longrightarrow> get_keys (lit ''prefix '' @ k @ lit '' suffix'') = [k])
   \<and> (length b = 32 \<longrightarrow>
        (\<exists>k'. to_safe_string b = Inr k' \<and> get_keys (lit ''prefix '' @ k' @ lit '' suffix'') = [k']))"
proof (intro conjI impI)
  have "get_keys document = map (\<lambda>j. take 56 (drop j document)) (key_positions_from document 0)"
    by (simp add: get_keys_def re_findall_def re_findall_from_positions)
  moreover have "\<forall>j\<in>set (key_positions_from document 0). key_at document j"
    using key_positions_sound by blast
  moreover have "\<forall>j. key_at document j \<longrightarrow>
      (\<exists>a\<in>set (key_positions_from document 0). a \<le> j \<and> j < a + 56)"
    using key_positions_complete [of 0 _ document] by simp
  ultimately show "\<exists>ps. get_keys document = map (\<lambda>j. take 56 (drop j document)) ps
         \<and> sorted_wrt (\<lambda>a b. a + 56 \<le> b) ps
         \<and> (\<forall>j\<in>set ps. key_at document j)
         \<and> (\<forall>j. key_at document j \<longrightarrow> (\<exists>a\<in>set ps. a \<le> j \<and> j < a + 56))"
    using key_positions_apart [of document 0] by blast
  show "get_keys (lit ''prefix '' @ k @ lit '' suffix'') = [k]" if "key_form k"
    using that by (rule get_keys_embedded)
  show "\<exists>k'. to_safe_string b = Inr k' \<and> get_keys (lit ''prefix '' @ k' @ lit '' suffix'') = [k']"
    if "length b = 32"
    using to_safe_string_key [OF that] get_keys_embedded by blast
qed

theorem get_keys_scan_witness:
  "key_form sample_key
   \<and> get_keys (lit ''prefix '' @ sample_key @ lit '' suffix'') = [sample_key]
   \<and> key_at (lit ''prefix '' @ sample_key @ lit '' suffix'') 7
   \<and> length (replicate 32 (0 :: byte)) = 32
   \<and> (\<exists>k'. to_safe_string (replicate 32 0) = Inr k'
           \<and> get_keys (lit ''prefix '' @ k' @ lit '' suffix'') = [k'])"
proof -
  have a: "key_at (lit ''prefix '' @ sample_key @ lit '' suffix'') 7" by code_simp
  show ?thesis
    using get_keys_scan [of "lit ''prefix '' @ sample_key @ lit '' suffix''" sample_key
        "replicate 32 0"] sample_keys_form(1) a
    by simp
qed


end
